theory Spec2Isabelle
  imports Main "HOL-Library.Multiset" "HOL-Library.Sublist" "HOL-Library.Product_Lexorder"
begin

section \<open>Session selection and bulk operations of the session list\<close>

text \<open>
  A shallow embedding of \<^verbatim>\<open>web/src/components/SessionList.tsx\<close> (selection reducer,
  grouping, reconciliation, bulk-delete confirmation) and of the mutation hooks
  \<^verbatim>\<open>useSessionActions\<close> / \<^verbatim>\<open>useBulkSessionActions\<close>.
\<close>

subsection \<open>JavaScript \<^verbatim>\<open>Set<string>\<close>\<close>

text \<open>
  A JavaScript \<^verbatim>\<open>Set\<close> iterates in insertion order and holds each member once. It is
  modelled as the list of its members in insertion order; \<^verbatim>\<open>Array.from(set)\<close> is that
  list and \<^verbatim>\<open>set.size\<close> its length.
\<close>

type_synonym js_set = "string list"

definition set_has :: "js_set \<Rightarrow> string \<Rightarrow> bool" where
  "set_has s x = (x \<in> set s)"

definition set_add :: "js_set \<Rightarrow> string \<Rightarrow> js_set" where
  "set_add s x = (if set_has s x then s else s @ [x])"

definition set_delete :: "js_set \<Rightarrow> string \<Rightarrow> js_set" where
  "set_delete s x = filter (\<lambda>y. y \<noteq> x) s"

text \<open>\<^verbatim>\<open>new Set(iterable)\<close> adds the elements one after the other to an empty set.\<close>

definition new_Set :: "string list \<Rightarrow> js_set" where
  "new_Set xs = foldl set_add [] xs"

subsection \<open>Selection state and reducer\<close>

record SelectionState =
  selectionMode :: bool
  selectedIds :: js_set

datatype SelectionAction =
    ENTER_SELECTION_MODE
  | EXIT_SELECTION_MODE
  | TOGGLE_SESSION string
  | SELECT_ALL "string list"
  | SET_SELECTION "string list"
  | CLEAR_SELECTION

fun selectionReducer :: "SelectionState \<Rightarrow> SelectionAction \<Rightarrow> SelectionState" where
  "selectionReducer state ENTER_SELECTION_MODE = state\<lparr>selectionMode := True\<rparr>"
| "selectionReducer state EXIT_SELECTION_MODE = \<lparr>selectionMode = False, selectedIds = new_Set []\<rparr>"
| "selectionReducer state (TOGGLE_SESSION sessionId) =
     (let newSelectedIds = new_Set (selectedIds state) in
      state\<lparr>selectedIds :=
        (if set_has newSelectedIds sessionId then set_delete newSelectedIds sessionId
         else set_add newSelectedIds sessionId)\<rparr>)"
| "selectionReducer state (SELECT_ALL sessionIds) = state\<lparr>selectedIds := new_Set sessionIds\<rparr>"
| "selectionReducer state (SET_SELECTION sessionIds) = state\<lparr>selectedIds := new_Set sessionIds\<rparr>"
| "selectionReducer state CLEAR_SELECTION = state\<lparr>selectedIds := new_Set []\<rparr>"

text \<open>The state \<^verbatim>\<open>useReducer\<close> starts from.\<close>

definition initialSelection :: SelectionState where
  "initialSelection = \<lparr>selectionMode = False, selectedIds = new_Set []\<rparr>"

text \<open>Dispatching a sequence of actions, one after the other.\<close>

definition dispatchAll :: "SelectionState \<Rightarrow> SelectionAction list \<Rightarrow> SelectionState" where
  "dispatchAll state actions = foldl selectionReducer state actions"

text \<open>
  The reducer has no guard of its own: it applies every action in either mode. \<open>gated\<close>
  says of a sequence of actions that each action that fills the set (toggle, select-all,
  set-selection) is applied to a state in selection mode.
\<close>

fun fills_selection :: "SelectionAction \<Rightarrow> bool" where
  "fills_selection (TOGGLE_SESSION _) = True"
| "fills_selection (SELECT_ALL _) = True"
| "fills_selection (SET_SELECTION _) = True"
| "fills_selection _ = False"

fun gated :: "SelectionState \<Rightarrow> SelectionAction list \<Rightarrow> bool" where
  "gated state [] = True"
| "gated state (a # as) =
     ((fills_selection a \<longrightarrow> selectionMode state) \<and> gated (selectionReducer state a) as)"

subsection \<open>Sessions\<close>

text \<open>
  The fields of \<^verbatim>\<open>SessionSummary\<close> that the list reads. The type is declared in another
  module (\<^verbatim>\<open>@/types/api\<close>); every property reached through \<^verbatim>\<open>?.\<close> or \<^verbatim>\<open>??\<close> is
  optional here. \<open>updatedAt\<close> and \<open>pendingRequestsCount\<close> are JavaScript numbers holding integers
  (a timestamp and a count).
\<close>

record Worktree =
  basePath :: "string option"

record Metadata =
  path :: "string option"
  worktree :: "Worktree option"

record SessionSummary =
  session_id :: string
  active :: bool
  updatedAt :: int
  pendingRequestsCount :: int
  metadata :: "Metadata option"

subsection \<open>Reconciling the selection with the session collection\<close>

text \<open>\<^verbatim>\<open>props.sessions.filter(s => !s.active).map(s => s.id)\<close>\<close>

definition selectableSessionIds :: "SessionSummary list \<Rightarrow> string list" where
  "selectableSessionIds sessions = map session_id (filter (\<lambda>s. \<not> active s) sessions)"

text \<open>
  The effect that runs when the selectable ids or the selected ids change: it returns early
  on an empty selection or when every selected id is still selectable, and otherwise
  dispatches \<^verbatim>\<open>CLEAR_SELECTION\<close> and, if ids remain, \<^verbatim>\<open>SELECT_ALL\<close> of the valid ones.
\<close>

definition reconcileSelection :: "SessionSummary list \<Rightarrow> SelectionState \<Rightarrow> SelectionState" where
  "reconcileSelection sessions state =
    (if length (selectedIds state) = 0 then state
     else
       let selectableIdSet = new_Set (selectableSessionIds sessions);
           validSelectedIds = filter (\<lambda>i. set_has selectableIdSet i) (selectedIds state)
       in if length validSelectedIds = length (selectedIds state) then state
          else
            let cleared = selectionReducer state CLEAR_SELECTION
            in if length validSelectedIds > 0
               then selectionReducer cleared (SELECT_ALL validSelectedIds)
               else cleared)"

subsection \<open>The session API and the bulk-delete mutation\<close>

text \<open>
  A rejection reason is an arbitrary JavaScript value. The mutation reads two things of it:
  its \<^verbatim>\<open>message\<close> property (absent for a value without one, and for \<^verbatim>\<open>undefined\<close>) and
  \<^verbatim>\<open>String(reason)\<close>.
\<close>

record Reason =
  message :: "string option"
  rendering :: string

datatype Settled = Fulfilled | Rejected Reason

text \<open>
  The promise a call returns: how it settles, and the logical time at which it does.
  Nothing in the hook reads the time; it is there to say in which order the calls of a
  batch complete.
\<close>

record Promise =
  settles :: Settled
  settledAt :: nat

text \<open>
  \<^verbatim>\<open>api.deleteSession(id)\<close>: a call returns its promise and changes the remote state \<open>'w\<close>.
  The state is threaded through the calls in the order in which they are issued.
\<close>

type_synonym 'w ApiClient = "string \<Rightarrow> 'w \<Rightarrow> Promise \<times> 'w"

text \<open>
  What a rejected operation carries: \<^verbatim>\<open>throw new Error(msg)\<close> of the hook itself, or the
  reason with which an awaited API call rejected.
\<close>

datatype Thrown = Error string | Rejection Reason

record Failure =
  failure_id :: string
  failure_error :: string

text \<open>
  What is observable of a run: \<^verbatim>\<open>Call id\<close> when \<^verbatim>\<open>api.deleteSession(id)\<close> is invoked,
  \<^verbatim>\<open>AllSettled batch\<close> when \<^verbatim>\<open>await Promise.allSettled(...)\<close> of that batch resumes,
  which is when every promise of the batch has settled.
\<close>

datatype Event = Call string | AllSettled "string list"

text \<open>
  The mutable variables of \<^verbatim>\<open>mutationFn\<close> (\<open>succeeded\<close>, \<open>failed\<close>), the log of
  events and the remote state.
\<close>

record 'w Run =
  succeeded :: "string list"
  failed :: "Failure list"
  trace :: "Event list"
  world :: 'w

definition limit :: nat where
  "limit = 5"

text \<open>\<^verbatim>\<open>xs.slice(i, j)\<close> for \<open>0 \<le> i \<le> j\<close>.\<close>

definition slice :: "'a list \<Rightarrow> nat \<Rightarrow> nat \<Rightarrow> 'a list" where
  "slice xs i j = take (j - i) (drop i xs)"

text \<open>\<^verbatim>\<open>batch.map(id => api.deleteSession(id))\<close>: the calls are issued in the batch's order.\<close>

fun issueCalls :: "'w ApiClient \<Rightarrow> string list \<Rightarrow> 'w \<Rightarrow> Promise list \<times> 'w" where
  "issueCalls api [] w = ([], w)"
| "issueCalls api (i # batch) w =
     (let (p, w1) = api i w;
          (ps, w2) = issueCalls api batch w1
      in (p # ps, w2))"

text \<open>
  \<^verbatim>\<open>Promise.allSettled\<close> resolves, once every promise has settled, with the outcomes in the
  order of the promises it was given, whatever the order in which they settled.
\<close>

definition allSettled :: "Promise list \<Rightarrow> Settled list" where
  "allSettled ps = map settles ps"

text \<open>
  \<^verbatim>\<open>(result.reason as { message?: string } | undefined)?.message || String(result.reason)\<close>:
  an absent or empty message is falsy and gives the rendering.
\<close>

definition errorText :: "Reason \<Rightarrow> string" where
  "errorText reason =
     (case message reason of
        None \<Rightarrow> rendering reason
      | Some m \<Rightarrow> if m \<noteq> [] then m else rendering reason)"

text \<open>The body of \<^verbatim>\<open>results.forEach((result, index) => ...)\<close> with \<open>i = batch[index]\<close>.\<close>

fun classify :: "'w Run \<Rightarrow> string \<times> Settled \<Rightarrow> 'w Run" where
  "classify run (i, Fulfilled) = run\<lparr>succeeded := succeeded run @ [i]\<rparr>"
| "classify run (i, Rejected reason) =
     run\<lparr>failed := failed run @ [\<lparr>failure_id = i, failure_error = errorText reason\<rparr>]\<rparr>"

text \<open>
  One iteration of the loop: slice the batch, issue its calls, await them all, classify the
  results in index order. \<open>results\<close> has one entry per element of \<open>batch\<close>, so pairing
  them with \<open>zip\<close> is \<open>batch[index]\<close> for every index the \<^verbatim>\<open>forEach\<close> visits. The log
  gets a \<^verbatim>\<open>Call\<close> for each id whose call returned a promise, and then \<^verbatim>\<open>AllSettled\<close> with
  the ids whose result the \<^verbatim>\<open>await\<close> delivered.
\<close>

definition processBatch :: "'w ApiClient \<Rightarrow> string list \<Rightarrow> nat \<Rightarrow> 'w Run \<Rightarrow> 'w Run" where
  "processBatch api sessionIds i run =
    (let batch = slice sessionIds i (i + limit);
         (promises, w) = issueCalls api batch (world run);
         results = allSettled promises;
         issued = run\<lparr>trace := trace run @ map Call (map fst (zip batch promises))
                               @ [AllSettled (map fst (zip batch results))],
                      world := w\<rparr>
     in foldl classify issued (zip batch results))"

text \<open>\<^verbatim>\<open>for (let i = 0; i < sessionIds.length; i += limit)\<close>\<close>

function bulkDeleteLoop :: "'w ApiClient \<Rightarrow> string list \<Rightarrow> nat \<Rightarrow> 'w Run \<Rightarrow> 'w Run" where
  "bulkDeleteLoop api sessionIds i run =
    (if i < length sessionIds
     then bulkDeleteLoop api sessionIds (i + limit) (processBatch api sessionIds i run)
     else run)"
  by pat_completeness auto
termination
  by (relation "measure (\<lambda>(api, sessionIds, i, run). length sessionIds - i)")
     (auto simp: limit_def)

text \<open>
  \<^verbatim>\<open>mutationFn\<close> of \<^verbatim>\<open>bulkDeleteMutation\<close>: it throws without an API client, and otherwise
  returns \<^verbatim>\<open>{ succeeded, failed }\<close> (here with the log and the remote state beside them).
\<close>

definition bulkDelete :: "'w ApiClient option \<Rightarrow> string list \<Rightarrow> 'w \<Rightarrow> Thrown + 'w Run" where
  "bulkDelete api sessionIds w =
    (case api of
       None \<Rightarrow> Inl (Error ''API unavailable'')
     | Some a \<Rightarrow>
         Inr (bulkDeleteLoop a sessionIds 0
                \<lparr>succeeded = [], failed = [], trace = [], world = w\<rparr>))"

subsection \<open>Confirming a bulk delete\<close>

datatype Toast = ToastSuccess nat | ToastAllFailed nat | ToastPartialFailed nat

text \<open>
  \<^verbatim>\<open>handleConfirmBulkDelete\<close>. The ids come from the selection the handler closed over
  (\<open>rendered\<close>); the dispatches act on the reducer's state at the time the mutation has
  settled (\<open>current\<close>), which is the same state unless something was dispatched in between.
  A rejected mutation leaves the handler at the \<^verbatim>\<open>await\<close>: nothing is dispatched.
\<close>

definition handleConfirmBulkDelete ::
  "'w ApiClient option \<Rightarrow> 'w \<Rightarrow> SelectionState \<Rightarrow> SelectionState
     \<Rightarrow> Thrown + (SelectionState \<times> Toast \<times> 'w Run)" where
  "handleConfirmBulkDelete api w rendered current =
    (case bulkDelete api (selectedIds rendered) w of
       Inl e \<Rightarrow> Inl e
     | Inr run \<Rightarrow>
         if length (failed run) = 0
         then Inr (selectionReducer current EXIT_SELECTION_MODE,
                   ToastSuccess (length (succeeded run)), run)
         else if length (succeeded run) = 0
         then Inr (current, ToastAllFailed (length (failed run)), run)
         else Inr (selectionReducer (selectionReducer current CLEAR_SELECTION)
                     (SELECT_ALL (map failure_id (failed run))),
                   ToastPartialFailed (length (failed run)), run))"

subsection \<open>The permission-mode mutation\<close>

text \<open>
  \<^verbatim>\<open>isKnownFlavor\<close> and \<^verbatim>\<open>isPermissionModeAllowedForFlavor\<close> are imported from other
  modules (\<^verbatim>\<open>@/lib/agentFlavorUtils\<close>, \<^verbatim>\<open>@hapi/protocol\<close>); the mutation is modelled for
  any pair of them.
\<close>

record FlavorPolicy =
  isKnownFlavor :: "string option \<Rightarrow> bool"
  isPermissionModeAllowedForFlavor :: "string \<Rightarrow> string option \<Rightarrow> bool"

text \<open>\<^verbatim>\<open>api.setPermissionMode(sessionId, mode)\<close>, awaited.\<close>

type_synonym 'w PermissionApi = "string \<Rightarrow> string \<Rightarrow> 'w \<Rightarrow> Settled \<times> 'w"

datatype ApiCall = SetPermissionMode string string

text \<open>
  \<^verbatim>\<open>mutationFn\<close> of \<^verbatim>\<open>permissionMutation\<close>, with the hook's arguments \<open>api\<close>,
  \<open>sessionId\<close>, \<open>agentFlavor\<close>. \<^verbatim>\<open>!sessionId\<close> holds for \<^verbatim>\<open>null\<close> and for the
  empty string. The result is the outcome, the API calls issued and the remote state.
\<close>

definition permissionMutationFn ::
  "FlavorPolicy \<Rightarrow> 'w PermissionApi option \<Rightarrow> string option \<Rightarrow> string option \<Rightarrow> string \<Rightarrow> 'w
     \<Rightarrow> (Thrown + unit) \<times> ApiCall list \<times> 'w" where
  "permissionMutationFn policy api sessionId agentFlavor mode w =
    (case (api, sessionId) of
       (Some a, Some sid) \<Rightarrow>
         if sid = [] then (Inl (Error ''Session unavailable''), [], w)
         else if isKnownFlavor policy agentFlavor
                 \<and> \<not> isPermissionModeAllowedForFlavor policy mode agentFlavor
         then (Inl (Error ''Invalid permission mode for session flavor''), [], w)
         else
           (case a sid mode w of
              (Fulfilled, w') \<Rightarrow> (Inr (), [SetPermissionMode sid mode], w')
            | (Rejected reason, w') \<Rightarrow> (Inl (Rejection reason), [SetPermissionMode sid mode], w'))
     | _ \<Rightarrow> (Inl (Error ''Session unavailable''), [], w))"

subsection \<open>Grouping sessions by directory\<close>

text \<open>
  \<^verbatim>\<open>Array.prototype.sort(cmp)\<close> is stable, and for a consistent comparator returns the
  elements in ascending order of \<open>cmp\<close>; insertion from the right computes that array. An
  element stays in front of the ones it preceded unless the comparator is positive.
\<close>

fun insertBy :: "('a \<Rightarrow> 'a \<Rightarrow> int) \<Rightarrow> 'a \<Rightarrow> 'a list \<Rightarrow> 'a list" where
  "insertBy cmp x [] = [x]"
| "insertBy cmp x (y # ys) = (if cmp x y \<le> 0 then x # y # ys else y # insertBy cmp x ys)"

fun sortBy :: "('a \<Rightarrow> 'a \<Rightarrow> int) \<Rightarrow> 'a list \<Rightarrow> 'a list" where
  "sortBy cmp [] = []"
| "sortBy cmp (x # xs) = insertBy cmp x (sortBy cmp xs)"

text \<open>A number that may be \<^verbatim>\<open>-Infinity\<close>, the start value of the \<^verbatim>\<open>reduce\<close>.\<close>

datatype Number = MinusInfinity | Num int

fun numGreater :: "Number \<Rightarrow> Number \<Rightarrow> bool" where
  "numGreater (Num x) (Num y) = (x > y)"
| "numGreater (Num x) MinusInfinity = True"
| "numGreater MinusInfinity _ = False"

text \<open>
  The sign of \<open>b - a\<close> as the sort reads it: \<^verbatim>\<open>-Infinity - (-Infinity)\<close> is \<^verbatim>\<open>NaN\<close>, which
  a comparator result of the sort counts as \<open>0\<close>.
\<close>

fun numMinus :: "Number \<Rightarrow> Number \<Rightarrow> int" where
  "numMinus (Num x) (Num y) = x - y"
| "numMinus (Num x) MinusInfinity = 1"
| "numMinus MinusInfinity (Num y) = - 1"
| "numMinus MinusInfinity MinusInfinity = 0"

record SessionGroup =
  directory :: string
  displayName :: string
  sessions :: "SessionSummary list"
  latestUpdatedAt :: Number
  hasActiveSession :: bool

text \<open>\<^verbatim>\<open>directory.split(/[\\/]+/).filter(Boolean)\<close>: the maximal runs of non-separators.\<close>

definition isSeparator :: "char \<Rightarrow> bool" where
  "isSeparator c = (c = CHR ''/'' \<or> c = CHR 0x5C)"

fun splitParts :: "string \<Rightarrow> string \<Rightarrow> string list" where
  "splitParts cur [] = (if cur = [] then [] else [cur])"
| "splitParts cur (c # cs) =
     (if isSeparator c
      then (if cur = [] then splitParts [] cs else cur # splitParts [] cs)
      else splitParts (cur @ [c]) cs)"

definition getGroupDisplayName :: "string \<Rightarrow> string" where
  "getGroupDisplayName dir =
    (if dir = ''Other'' then dir
     else
       let parts = splitParts [] dir
       in if length parts = 0 then dir
          else if length parts = 1 then parts ! 0
          else parts ! (length parts - 2) @ ''/'' @ parts ! (length parts - 1))"

text \<open>\<^verbatim>\<open>session.metadata?.worktree?.basePath ?? session.metadata?.path ?? 'Other'\<close>\<close>

definition groupPath :: "SessionSummary \<Rightarrow> string" where
  "groupPath session =
    (case metadata session of
       None \<Rightarrow> ''Other''
     | Some m \<Rightarrow>
         (case (case worktree m of None \<Rightarrow> None | Some wt \<Rightarrow> basePath wt) of
            Some p \<Rightarrow> p
          | None \<Rightarrow> (case path m of Some p \<Rightarrow> p | None \<Rightarrow> ''Other'')))"

text \<open>
  \<^verbatim>\<open>Map<string, SessionSummary[]>\<close>: the entries in insertion order. \<^verbatim>\<open>set\<close> of a new key
  appends an entry; \<^verbatim>\<open>groups.get(path)!.push(session)\<close> extends the array of the entry.
\<close>

type_synonym GroupMap = "(string \<times> SessionSummary list) list"

definition map_has :: "GroupMap \<Rightarrow> string \<Rightarrow> bool" where
  "map_has groups k = (k \<in> set (map fst groups))"

definition map_set :: "GroupMap \<Rightarrow> string \<Rightarrow> SessionSummary list \<Rightarrow> GroupMap" where
  "map_set groups k v =
    (if map_has groups k then map (\<lambda>(k', v'). if k' = k then (k', v) else (k', v')) groups
     else groups @ [(k, v)])"

definition map_push :: "GroupMap \<Rightarrow> string \<Rightarrow> SessionSummary \<Rightarrow> GroupMap" where
  "map_push groups k session =
     map (\<lambda>(k', v'). if k' = k then (k', v' @ [session]) else (k', v')) groups"

text \<open>The body of \<^verbatim>\<open>sessions.forEach(session => ...)\<close>.\<close>

definition addSession :: "GroupMap \<Rightarrow> SessionSummary \<Rightarrow> GroupMap" where
  "addSession groups session =
    (let p = groupPath session;
         groups1 = (if \<not> map_has groups p then map_set groups p [] else groups)
     in map_push groups1 p session)"

definition compareSessions :: "SessionSummary \<Rightarrow> SessionSummary \<Rightarrow> int" where
  "compareSessions a b =
    (let rankA = (if active a then (if pendingRequestsCount a > 0 then 0 else 1) else 2);
         rankB = (if active b then (if pendingRequestsCount b > 0 then 0 else 1) else 2)
     in if rankA \<noteq> rankB then rankA - rankB else updatedAt b - updatedAt a)"

definition compareGroups :: "SessionGroup \<Rightarrow> SessionGroup \<Rightarrow> int" where
  "compareGroups a b =
    (if hasActiveSession a \<noteq> hasActiveSession b
     then (if hasActiveSession a then - 1 else 1)
     else numMinus (latestUpdatedAt b) (latestUpdatedAt a))"

text \<open>The function given to \<^verbatim>\<open>.map\<close> over the entries of the map.\<close>

definition makeGroup :: "string \<times> SessionSummary list \<Rightarrow> SessionGroup" where
  "makeGroup entry =
    (case entry of (dir, groupSessions) \<Rightarrow>
      \<lparr>directory = dir,
       displayName = getGroupDisplayName dir,
       sessions = sortBy compareSessions groupSessions,
       latestUpdatedAt =
         foldl (\<lambda>m s. if numGreater (Num (updatedAt s)) m then Num (updatedAt s) else m)
           MinusInfinity groupSessions,
       hasActiveSession = list_ex active groupSessions\<rparr>)"

definition groupSessionsByDirectory :: "SessionSummary list \<Rightarrow> SessionGroup list" where
  "groupSessionsByDirectory sessionList =
     sortBy compareGroups (map makeGroup (foldl addSession [] sessionList))"

subsection \<open>Notions of the specification\<close>

text \<open>
  The consecutive chunks of at most \<open>n\<close> elements of a list: the first \<open>n\<close> elements, then
  the chunks of the rest.
\<close>

function chunks :: "nat \<Rightarrow> 'a list \<Rightarrow> 'a list list" where
  "chunks n xs = (if n = 0 \<or> xs = [] then [] else take n xs # chunks n (drop n xs))"
  by pat_completeness auto
termination
  by (relation "measure (\<lambda>(n, xs). length xs)") auto

text \<open>
  The log of a run that issues the calls of each chunk together and starts the next chunk
  once the current one has settled.
\<close>

definition chunkedTrace :: "string list list \<Rightarrow> Event list" where
  "chunkedTrace cs = concat (map (\<lambda>c. map Call c @ [AllSettled c]) cs)"

text \<open>
  The outcomes in completion order inside each chunk-batch, as the specification words it:
  the calls of a chunk, ordered by the time at which they settle.
\<close>

definition completionOrder :: "'w ApiClient \<Rightarrow> string list \<Rightarrow> 'w \<Rightarrow> (string \<times> Promise) list" where
  "completionOrder api sessionIds w =
     concat (map (sort_key (\<lambda>(i, p). settledAt p))
       (chunks limit (zip sessionIds (fst (issueCalls api sessionIds w)))))"

definition succeededInCompletionOrder :: "'w ApiClient \<Rightarrow> string list \<Rightarrow> 'w \<Rightarrow> string list" where
  "succeededInCompletionOrder api sessionIds w =
     map fst (filter (\<lambda>(i, p). settles p = Fulfilled) (completionOrder api sessionIds w))"

text \<open>
  The key of a session's group, as the claim words it: the worktree base path if the
  session has one, else the path if it has one, else \<^verbatim>\<open>Other\<close>.
\<close>

definition worktreeBasePath :: "SessionSummary \<Rightarrow> string option" where
  "worktreeBasePath s = Option.bind (metadata s) (\<lambda>m. Option.bind (worktree m) basePath)"

definition sessionPath :: "SessionSummary \<Rightarrow> string option" where
  "sessionPath s = Option.bind (metadata s) path"

definition groupKey :: "SessionSummary \<Rightarrow> string" where
  "groupKey s =
     (if worktreeBasePath s \<noteq> None then the (worktreeBasePath s)
      else if sessionPath s \<noteq> None then the (sessionPath s)
      else ''Other'')"

text \<open>
  The three tiers of the claim: 0 for an active session with \<open>pendingRequestsCount > 0\<close>,
  1 for an active session with no pending requests, 2 for an inactive session.
\<close>

definition tier :: "SessionSummary \<Rightarrow> nat" where
  "tier s =
     (if active s \<and> pendingRequestsCount s > 0 then 0
      else if active s \<and> pendingRequestsCount s \<le> 0 then 1
      else 2)"

text \<open>
  The order inside a group: by tier, and within a tier by descending \<open>updatedAt\<close>.
\<close>

definition sessionBefore :: "SessionSummary \<Rightarrow> SessionSummary \<Rightarrow> bool" where
  "sessionBefore a b = (tier a < tier b \<or> (tier a = tier b \<and> updatedAt a \<ge> updatedAt b))"

text \<open>
  The order of the groups: a group that contains an active session is before one that
  contains none, and groups that agree on that are in descending order of the latest
  \<open>updatedAt\<close> of their sessions.
\<close>

definition latestOf :: "SessionSummary list \<Rightarrow> int" where
  "latestOf ss = Max (set (map updatedAt ss))"

definition containsActive :: "SessionGroup \<Rightarrow> bool" where
  "containsActive g = (\<exists>s \<in> set (sessions g). active s)"

definition groupBefore :: "SessionGroup \<Rightarrow> SessionGroup \<Rightarrow> bool" where
  "groupBefore g h =
     ((containsActive g \<and> \<not> containsActive h)
      \<or> (containsActive g = containsActive h
          \<and> latestOf (sessions g) \<ge> latestOf (sessions h)))"

text \<open>The invariant of the selection state: outside selection mode nothing is selected.\<close>

definition selectionInvariant :: "SelectionState \<Rightarrow> bool" where
  "selectionInvariant state = (\<not> selectionMode state \<longrightarrow> selectedIds state = [])"

text \<open>
  What the map of groups holds once the sessions \<open>seen\<close> have been added: one entry per
  group path, each with the sessions of that path in the order in which they were seen.
\<close>

definition grouped :: "GroupMap \<Rightarrow> SessionSummary list \<Rightarrow> bool" where
  "grouped groups seen =
     (distinct (map fst groups)
      \<and> set (map fst groups) = set (map groupPath seen)
      \<and> (\<forall>(k, vs) \<in> set groups. vs = filter (\<lambda>s. groupPath s = k) seen)
      \<and> mset (concat (map snd groups)) = mset seen)"

text \<open>
  The outcome of every call of a run over \<open>sessionIds\<close>, in input order: each id with
  how its call settled.
\<close>

definition outcomes :: "'w ApiClient \<Rightarrow> string list \<Rightarrow> 'w \<Rightarrow> (string \<times> Settled) list" where
  "outcomes api sessionIds w = zip sessionIds (allSettled (fst (issueCalls api sessionIds w)))"

text \<open>The ids whose call fulfilled.\<close>

definition succeededOf :: "(string \<times> Settled) list \<Rightarrow> string list" where
  "succeededOf os = map fst (filter (\<lambda>(i, s). s = Fulfilled) os)"

text \<open>
  The message of a failure, as the specification words it: the descriptive text of the
  failure if there is one, else the string rendering of the failure value.
\<close>

definition descriptiveText :: "Reason \<Rightarrow> string" where
  "descriptiveText reason =
     (if message reason = None \<or> message reason = Some [] then rendering reason
      else the (message reason))"

text \<open>The ids whose call rejected, each with its message.\<close>

definition failedOf :: "(string \<times> Settled) list \<Rightarrow> Failure list" where
  "failedOf os =
     concat (map (\<lambda>(i, s). case s of
                    Fulfilled \<Rightarrow> []
                  | Rejected reason \<Rightarrow> [\<lparr>failure_id = i, failure_error = descriptiveText reason\<rparr>]) os)"


text \<open>
  An API under observation: it behaves as \<open>api\<close> does, and keeps beside the remote state
  the list of the calls it has received, each with the id it was called with and the way
  the promise it returned settles.
\<close>

definition observed :: "'w ApiClient \<Rightarrow> ('w \<times> (string \<times> Settled) list) ApiClient" where
  "observed api i state =
     (case state of (w, calls) \<Rightarrow>
        (case api i w of (p, w') \<Rightarrow> (p, (w', calls @ [(i, settles p)]))))"

text \<open>The same API with other completion times.\<close>

definition retime :: "(string \<Rightarrow> 'w \<Rightarrow> nat) \<Rightarrow> 'w ApiClient \<Rightarrow> 'w ApiClient" where
  "retime t api i w = (case api i w of (p, w') \<Rightarrow> (p\<lparr>settledAt := t i w\<rparr>, w'))"

text \<open>
  A test double: an API without state whose calls settle as \<open>outcome\<close> says, at the time
  \<open>time\<close> says.
\<close>

definition testDouble :: "(string \<Rightarrow> Settled) \<Rightarrow> (string \<Rightarrow> nat) \<Rightarrow> unit ApiClient" where
  "testDouble outcome time i w = (\<lparr>settles = outcome i, settledAt = time i\<rparr>, w)"

text \<open>The calls for the ids of \<open>bad\<close> reject, the others fulfil.\<close>

definition rejecting :: "string list \<Rightarrow> string \<Rightarrow> Settled" where
  "rejecting bad i =
     (if i \<in> set bad then Rejected \<lparr>message = Some ''gone'', rendering = ''Error: gone''\<rparr>
      else Fulfilled)"

declare chunks.simps [simp del]
declare bulkDeleteLoop.simps [simp del]

section \<open>Properties\<close>

subsection \<open>Sets\<close>

lemma set_foldl_set_add: "set (foldl set_add acc xs) = set acc \<union> set xs"
  by (induction xs arbitrary: acc) (auto simp: set_add_def set_has_def)

lemma set_new_Set: "set (new_Set xs) = set xs"
  by (simp add: new_Set_def set_foldl_set_add)

lemma new_Set_Nil: "new_Set [] = []"
  by (simp add: new_Set_def)

lemma distinct_foldl_set_add: "distinct acc \<Longrightarrow> distinct (foldl set_add acc xs)"
  by (induction xs arbitrary: acc) (auto simp: set_add_def set_has_def)

lemma distinct_new_Set: "distinct (new_Set xs)"
  by (simp add: new_Set_def distinct_foldl_set_add)

lemma foldl_set_add_distinct:
  "distinct (acc @ xs) \<Longrightarrow> foldl set_add acc xs = acc @ xs"
  by (induction xs arbitrary: acc) (auto simp: set_add_def set_has_def)

lemma new_Set_distinct: "distinct xs \<Longrightarrow> new_Set xs = xs"
  using foldl_set_add_distinct [of "[]" xs] by (simp add: new_Set_def)

lemma set_set_delete: "set (set_delete s x) = set s - {x}"
  by (auto simp: set_delete_def)

lemma set_set_add: "set (set_add s x) = insert x (set s)"
  by (auto simp: set_add_def set_has_def)

subsection \<open>The selection reducer\<close>

lemma reducer_keeps_invariant:
  "selectionInvariant state \<Longrightarrow> (fills_selection a \<longrightarrow> selectionMode state)
     \<Longrightarrow> selectionInvariant (selectionReducer state a)"
  by (cases a) (auto simp: selectionInvariant_def new_Set_Nil Let_def)

lemma gated_keeps_invariant:
  "selectionInvariant state \<Longrightarrow> gated state as
     \<Longrightarrow> selectionInvariant (foldl selectionReducer state as)"
proof (induction as arbitrary: state)
  case Nil
  then show ?case by simp
next
  case (Cons a as)
  from Cons.prems have "selectionInvariant (selectionReducer state a)"
    by (simp add: reducer_keeps_invariant)
  moreover from Cons.prems have "gated (selectionReducer state a) as" by simp
  ultimately show ?case using Cons.IH by simp
qed

text \<open>
  C4, as stated: in every state reached from the initial state by a sequence of selection
  actions, nothing is selected outside selection mode. The reducer toggles whatever the
  mode is, so one \<^verbatim>\<open>TOGGLE_SESSION\<close> from the initial state gives a state outside selection
  mode with one id selected.
\<close>

theorem reachable_invariant_counterexample:
  "selectionMode (dispatchAll initialSelection [TOGGLE_SESSION ''a'']) = False
   \<and> selectedIds (dispatchAll initialSelection [TOGGLE_SESSION ''a'']) \<noteq> []"
  by (simp add: dispatchAll_def initialSelection_def Let_def new_Set_def set_has_def set_add_def)

text \<open>
  C4, amended: \<^verbatim>\<open>EXIT_SELECTION_MODE\<close> gives, from any state, the state outside selection
  mode with the empty set; and in every state reached from the initial state by a sequence
  of actions in which each toggle, select-all and set-selection is applied to a state in
  selection mode, nothing is selected outside selection mode.
\<close>

theorem exit_and_gated_invariant:
  "(gated initialSelection as \<longrightarrow>
      (selectionMode (dispatchAll initialSelection as) = False
         \<longrightarrow> selectedIds (dispatchAll initialSelection as) = []))
   \<and> selectionReducer state EXIT_SELECTION_MODE = \<lparr>selectionMode = False, selectedIds = []\<rparr>"
proof -
  have "selectionInvariant initialSelection"
    by (simp add: selectionInvariant_def initialSelection_def new_Set_Nil)
  then have "gated initialSelection as \<Longrightarrow> selectionInvariant (dispatchAll initialSelection as)"
    unfolding dispatchAll_def by (rule gated_keeps_invariant)
  then show ?thesis by (auto simp: selectionInvariant_def new_Set_Nil)
qed

theorem exit_and_gated_invariant_witness:
  "gated initialSelection [ENTER_SELECTION_MODE, TOGGLE_SESSION ''a'', EXIT_SELECTION_MODE]
   \<and> selectionMode (dispatchAll initialSelection
        [ENTER_SELECTION_MODE, TOGGLE_SESSION ''a'', EXIT_SELECTION_MODE]) = False
   \<and> selectedIds (dispatchAll initialSelection
        [ENTER_SELECTION_MODE, TOGGLE_SESSION ''a'', EXIT_SELECTION_MODE]) = []"
  using exit_and_gated_invariant
    [of "[ENTER_SELECTION_MODE, TOGGLE_SESSION ''a'', EXIT_SELECTION_MODE]"]
  by (simp add: initialSelection_def dispatchAll_def)

text \<open>
  C5, as stated: \<^verbatim>\<open>TOGGLE_SESSION\<close> on a state outside selection mode returns the state
  unchanged. The reducer adds the id.
\<close>

theorem toggle_outside_selection_mode_counterexample:
  "selectionMode \<lparr>selectionMode = False, selectedIds = []\<rparr> = False
   \<and> selectionReducer \<lparr>selectionMode = False, selectedIds = []\<rparr> (TOGGLE_SESSION ''a'')
       \<noteq> \<lparr>selectionMode = False, selectedIds = []\<rparr>"
  by (simp add: Let_def new_Set_def set_has_def set_add_def)

text \<open>
  C5, amended: \<^verbatim>\<open>TOGGLE_SESSION\<close> flips the membership of the id in the selected set and
  leaves the mode as it is, in selection mode and outside it.
\<close>

theorem toggle_flips_membership:
  "set (selectedIds (selectionReducer state (TOGGLE_SESSION i))) =
     (if i \<in> set (selectedIds state) then set (selectedIds state) - {i}
      else insert i (set (selectedIds state)))
   \<and> selectionMode (selectionReducer state (TOGGLE_SESSION i)) = selectionMode state"
  by (simp add: Let_def set_has_def set_new_Set set_set_delete set_set_add)

theorem toggle_flips_membership_witness:
  "set (selectedIds (selectionReducer \<lparr>selectionMode = True, selectedIds = [''a'']\<rparr>
          (TOGGLE_SESSION ''b''))) = {''a'', ''b''}
   \<and> selectionMode (selectionReducer \<lparr>selectionMode = True, selectedIds = [''a'']\<rparr>
          (TOGGLE_SESSION ''b''))"
  using toggle_flips_membership
    [where i = "''b''" and state = "\<lparr>selectionMode = True, selectedIds = [''a'']\<rparr>"]
  by auto

subsection \<open>Reconciliation\<close>

lemma filter_length_eq_all: "length (filter P xs) = length xs \<Longrightarrow> filter P xs = xs"
  by (metis filter_True length_filter_less less_irrefl_nat)

lemma reconcile_set:
  "set (selectedIds (reconcileSelection ss state))
     = set (selectedIds state) \<inter> set (selectableSessionIds ss)"
proof -
  let ?valid = "filter (\<lambda>i. set_has (new_Set (selectableSessionIds ss)) i) (selectedIds state)"
  have valid: "set ?valid = set (selectedIds state) \<inter> set (selectableSessionIds ss)"
    by (auto simp: set_has_def set_new_Set)
  show ?thesis
  proof (cases "length ?valid = length (selectedIds state)")
    case True
    then have "?valid = selectedIds state" by (rule filter_length_eq_all)
    with valid True show ?thesis
      by (simp add: reconcileSelection_def Let_def)
  next
    case False
    then have ne: "selectedIds state \<noteq> []" by auto
    show ?thesis
    proof (cases "?valid = []")
      case True
      with valid have "set (selectedIds state) \<inter> set (selectableSessionIds ss) = {}"
        by (metis set_empty)
      with True False ne show ?thesis
        by (simp add: reconcileSelection_def Let_def new_Set_Nil)
    next
      case nonempty: False
      with False ne valid show ?thesis
        by (simp add: reconcileSelection_def Let_def set_new_Set)
    qed
  qed
qed

lemma reconcile_mode:
  "selectionMode (reconcileSelection ss state) = selectionMode state"
  by (simp add: reconcileSelection_def Let_def)

text \<open>
  C7: after the reconciliation with a session collection, the selected ids are the
  previously selected ids that are ids of non-active sessions of the collection: every
  other id is removed, every such id is kept, and the result is a subset of the selectable
  ids. The mode does not change. With \<open>x\<close> and \<open>y\<close> selected, \<open>x\<close> selectable and
  \<open>y\<close> not (it became active), exactly \<open>x\<close> is left.
\<close>

theorem reconcile_prunes_unselectable:
  "set (selectedIds (reconcileSelection ss state))
     = {i \<in> set (selectedIds state). \<exists>s \<in> set ss. session_id s = i \<and> \<not> active s}
   \<and> set (selectedIds (reconcileSelection ss state)) \<subseteq> set (selectableSessionIds ss)
   \<and> selectionMode (reconcileSelection ss state) = selectionMode state
   \<and> (selectedIds state = [x, y] \<and> x \<in> set (selectableSessionIds ss)
        \<and> y \<notin> set (selectableSessionIds ss)
      \<longrightarrow> selectedIds (reconcileSelection ss state) = [x])"
proof -
  have sel: "set (selectableSessionIds ss) = {i. \<exists>s \<in> set ss. session_id s = i \<and> \<not> active s}"
    by (auto simp: selectableSessionIds_def)
  have ex: "selectedIds (reconcileSelection ss state) = [x]"
    if "selectedIds state = [x, y]" "x \<in> set (selectableSessionIds ss)"
       "y \<notin> set (selectableSessionIds ss)"
    using that
    by (simp add: reconcileSelection_def Let_def set_has_def set_new_Set new_Set_distinct)
  show ?thesis
    using reconcile_set [of ss state] reconcile_mode [of ss state] sel ex by auto
qed

theorem reconcile_prunes_unselectable_witness:
  "selectedIds (reconcileSelection
       [\<lparr>session_id = ''x'', active = False, updatedAt = 10, pendingRequestsCount = 0,
         metadata = None\<rparr>,
        \<lparr>session_id = ''y'', active = True, updatedAt = 20, pendingRequestsCount = 0,
         metadata = None\<rparr>]
       \<lparr>selectionMode = True, selectedIds = [''x'', ''y'']\<rparr>) = [''x'']"
  using reconcile_prunes_unselectable
    [where x = "''x''" and y = "''y''"
       and state = "\<lparr>selectionMode = True, selectedIds = [''x'', ''y'']\<rparr>"
       and ss = "[\<lparr>session_id = ''x'', active = False, updatedAt = 10,
                   pendingRequestsCount = 0, metadata = None\<rparr>,
                 \<lparr>session_id = ''y'', active = True, updatedAt = 20,
                   pendingRequestsCount = 0, metadata = None\<rparr>]"]
  by (simp add: selectableSessionIds_def)

subsection \<open>The bulk-delete mutation\<close>

lemma errorText_descriptiveText: "errorText reason = descriptiveText reason"
  by (auto simp: errorText_def descriptiveText_def split: option.splits)

lemma length_issueCalls: "length (fst (issueCalls api xs w)) = length xs"
  by (induction xs arbitrary: w) (simp_all add: Let_def case_prod_beta)

lemma issueCalls_append:
  "issueCalls api (xs @ ys) w =
     (fst (issueCalls api xs w) @ fst (issueCalls api ys (snd (issueCalls api xs w))),
      snd (issueCalls api ys (snd (issueCalls api xs w))))"
  by (induction xs arbitrary: w) (simp_all add: Let_def case_prod_beta)

lemma outcomes_append:
  "outcomes api (xs @ ys) w = outcomes api xs w @ outcomes api ys (snd (issueCalls api xs w))"
  by (simp add: outcomes_def issueCalls_append allSettled_def length_issueCalls)

lemma succeededOf_append: "succeededOf (xs @ ys) = succeededOf xs @ succeededOf ys"
  by (simp add: succeededOf_def)

lemma failedOf_append: "failedOf (xs @ ys) = failedOf xs @ failedOf ys"
  by (simp add: failedOf_def)

lemma foldl_classify:
  "foldl classify run os =
     run\<lparr>succeeded := succeeded run @ succeededOf os, failed := failed run @ failedOf os\<rparr>"
proof (induction os arbitrary: run)
  case Nil
  then show ?case by (simp add: succeededOf_def failedOf_def)
next
  case (Cons e os)
  obtain i s where e: "e = (i, s)" by (cases e)
  show ?case
    by (cases s) (simp_all add: e Cons.IH succeededOf_def failedOf_def errorText_descriptiveText)
qed

lemma map_fst_zip_same: "length ys = length xs \<Longrightarrow> map (f \<circ> fst) (zip xs ys) = map f xs"
proof (induction xs arbitrary: ys)
  case Nil
  then show ?case by simp
next
  case (Cons x xs)
  then show ?case by (cases ys) simp_all
qed

lemma processBatch_eq:
  "processBatch api ids i run =
     run\<lparr>succeeded := succeeded run @ succeededOf (outcomes api (slice ids i (i + limit)) (world run)),
         failed := failed run @ failedOf (outcomes api (slice ids i (i + limit)) (world run)),
         trace := trace run @ map Call (slice ids i (i + limit)) @ [AllSettled (slice ids i (i + limit))],
         world := snd (issueCalls api (slice ids i (i + limit)) (world run))\<rparr>"
  by (simp add: processBatch_def Let_def foldl_classify outcomes_def case_prod_beta
        length_issueCalls allSettled_def map_fst_zip_same)

lemma chunks_Nil: "chunks n [] = []"
  by (simp add: chunks.simps)

lemma chunks_step: "n > 0 \<Longrightarrow> xs \<noteq> [] \<Longrightarrow> chunks n xs = take n xs # chunks n (drop n xs)"
  by (subst chunks.simps) simp

lemma chunkedTrace_Cons: "chunkedTrace (c # cs) = map Call c @ [AllSettled c] @ chunkedTrace cs"
  by (simp add: chunkedTrace_def)

lemma bulkDeleteLoop_eq:
  "bulkDeleteLoop api ids i run =
     run\<lparr>succeeded := succeeded run @ succeededOf (outcomes api (drop i ids) (world run)),
         failed := failed run @ failedOf (outcomes api (drop i ids) (world run)),
         trace := trace run @ chunkedTrace (chunks limit (drop i ids)),
         world := snd (issueCalls api (drop i ids) (world run))\<rparr>"
proof (induction api ids i run rule: bulkDeleteLoop.induct)
  case (1 api ids i run)
  show ?case
  proof (cases "i < length ids")
    case False
    then have "drop i ids = []" by simp
    with False show ?thesis
      by (subst bulkDeleteLoop.simps)
         (simp add: outcomes_def succeededOf_def failedOf_def chunkedTrace_def allSettled_def
            chunks_Nil)
  next
    case True
    let ?rest = "drop i ids"
    let ?batch = "slice ids i (i + limit)"
    have batch: "?batch = take limit ?rest" by (simp add: slice_def)
    have rest': "drop (i + limit) ids = drop limit ?rest" by (simp add: add.commute)
    have split: "?rest = ?batch @ drop (i + limit) ids"
      unfolding batch rest' by (simp del: drop_drop)
    have ne: "?rest \<noteq> []" using True by simp
    have ch: "chunks limit ?rest = ?batch # chunks limit (drop (i + limit) ids)"
    proof -
      have "0 < limit" by (simp add: limit_def)
      then have "chunks limit ?rest = take limit ?rest # chunks limit (drop limit ?rest)"
        using ne by (rule chunks_step)
      then show ?thesis unfolding batch rest' .
    qed
    have out: "outcomes api ?rest (world run) =
        outcomes api ?batch (world run)
        @ outcomes api (drop (i + limit) ids) (snd (issueCalls api ?batch (world run)))"
      using outcomes_append [of api ?batch "drop (i + limit) ids" "world run"] split by simp
    have calls: "snd (issueCalls api ?rest (world run)) =
        snd (issueCalls api (drop (i + limit) ids) (snd (issueCalls api ?batch (world run))))"
      using issueCalls_append [of api ?batch "drop (i + limit) ids" "world run"] split by simp
    have "bulkDeleteLoop api ids i run
            = bulkDeleteLoop api ids (i + limit) (processBatch api ids i run)"
      using True by (subst bulkDeleteLoop.simps) simp
    also have "\<dots> = run\<lparr>succeeded := succeeded run @ succeededOf (outcomes api ?rest (world run)),
         failed := failed run @ failedOf (outcomes api ?rest (world run)),
         trace := trace run @ chunkedTrace (chunks limit ?rest),
         world := snd (issueCalls api ?rest (world run))\<rparr>"
      unfolding "1.IH" [OF True]
      unfolding out calls ch
      by (simp add: processBatch_eq succeededOf_append failedOf_append chunkedTrace_Cons)
    finally show ?thesis .
  qed
qed






lemma bulkDelete_Some:
  "bulkDelete (Some api) ids w =
     Inr \<lparr>succeeded = succeededOf (outcomes api ids w),
          failed = failedOf (outcomes api ids w),
          trace = chunkedTrace (chunks limit ids),
          world = snd (issueCalls api ids w)\<rparr>"
  by (simp add: bulkDelete_def bulkDeleteLoop_eq)

lemma issueCalls_observed:
  "issueCalls (observed api) xs (w, calls) =
     (fst (issueCalls api xs w),
      (snd (issueCalls api xs w), calls @ zip xs (map settles (fst (issueCalls api xs w)))))"
proof (induction xs arbitrary: w calls)
  case Nil
  then show ?case by simp
next
  case (Cons x xs)
  obtain p w1 where call: "api x w = (p, w1)" by (cases "api x w")
  have "observed api x (w, calls) = (p, (w1, calls @ [(x, settles p)]))"
    by (simp add: observed_def call)
  then show ?case
    by (simp add: call Cons.IH Let_def case_prod_beta)
qed

lemma outcomes_observed: "outcomes (observed api) ids (w, calls) = outcomes api ids w"
  by (simp add: outcomes_def issueCalls_observed)

lemma bulkDelete_observed:
  "bulkDelete (Some (observed api)) ids (w, []) =
     Inr \<lparr>succeeded = succeededOf (outcomes api ids w),
          failed = failedOf (outcomes api ids w),
          trace = chunkedTrace (chunks limit ids),
          world = (snd (issueCalls api ids w), outcomes api ids w)\<rparr>"
  by (simp add: bulkDelete_Some outcomes_observed issueCalls_observed outcomes_def allSettled_def)

lemma fst_outcomes: "map fst (outcomes api ids w) = ids"
  by (simp add: outcomes_def allSettled_def length_issueCalls)




lemma failure_ids_failedOf:
  "map failure_id (failedOf os) = map fst (filter (\<lambda>(i, s). s \<noteq> Fulfilled) os)"
proof (induction os)
  case Nil
  then show ?case by (simp add: failedOf_def)
next
  case (Cons e os)
  obtain i s where e: "e = (i, s)" by (cases e)
  from Cons.IH show ?case by (cases s) (simp_all add: e failedOf_def)
qed

lemma classified_mset:
  "mset (succeededOf os) + mset (map failure_id (failedOf os)) = mset (map fst os)"
  unfolding failure_ids_failedOf succeededOf_def
  by (induction os) auto

lemma succeededOf_sound: "i \<in> set (succeededOf os) \<Longrightarrow> (i, Fulfilled) \<in> set os"
  by (auto simp: succeededOf_def)

lemma failedOf_sound:
  "f \<in> set (failedOf os) \<Longrightarrow>
     \<exists>reason. (failure_id f, Rejected reason) \<in> set os \<and> failure_error f = descriptiveText reason"
proof (induction os)
  case Nil
  then show ?case by (simp add: failedOf_def)
next
  case (Cons e os)
  obtain i s where e: "e = (i, s)" by (cases e)
  show ?case
  proof (cases s)
    case Fulfilled
    with Cons e show ?thesis by (auto simp: failedOf_def)
  next
    case (Rejected reason)
    with Cons.prems e have "f = \<lparr>failure_id = i, failure_error = descriptiveText reason\<rparr>
        \<or> f \<in> set (failedOf os)"
      by (auto simp: failedOf_def)
    then show ?thesis
    proof
      assume "f = \<lparr>failure_id = i, failure_error = descriptiveText reason\<rparr>"
      with e Rejected show ?thesis by auto
    next
      assume "f \<in> set (failedOf os)"
      with Cons.IH show ?thesis by auto
    qed
  qed
qed

text \<open>
  C8: \<^verbatim>\<open>bulkDelete\<close> rejects if and only if there is no API client. With one it resolves,
  whatever the calls do. The API, put under observation, has received one delete call for
  every id; \<open>succeeded\<close> holds the ids whose call, as the API saw it, fulfilled, and
  \<open>failed\<close> the ids whose call rejected, each id of the input once in one of the two; and
  the message of a failed entry is the message of the reason the call rejected with if it
  has a non-empty one, else the string rendering of that reason.
\<close>

theorem bulkDelete_rejects_iff_no_api:
  "((\<exists>e. bulkDelete api ids w = Inl e) \<longleftrightarrow> api = None)
   \<and> (\<forall>a. api = Some a \<longrightarrow>
        (\<exists>run orun calls.
             bulkDelete api ids w = Inr run
           \<and> bulkDelete (Some (observed a)) ids (w, []) = Inr orun
           \<and> world orun = (world run, calls)
           \<and> succeeded orun = succeeded run
           \<and> failed orun = failed run
           \<and> map fst calls = ids
           \<and> succeeded run = map fst (filter (\<lambda>(i, s). s = Fulfilled) calls)
           \<and> failed run = failedOf calls
           \<and> mset (succeeded run) + mset (map failure_id (failed run)) = mset ids
           \<and> (\<forall>i \<in> set (succeeded run). (i, Fulfilled) \<in> set calls)
           \<and> (\<forall>f \<in> set (failed run). \<exists>reason.
                 (failure_id f, Rejected reason) \<in> set calls
                 \<and> failure_error f = descriptiveText reason)))"
proof (cases api)
  case None
  then show ?thesis by (simp add: bulkDelete_def)
next
  case (Some a)
  have "mset (succeededOf (outcomes a ids w)) + mset (map failure_id (failedOf (outcomes a ids w)))
          = mset ids"
    using classified_mset [of "outcomes a ids w"] by (simp add: fst_outcomes)
  moreover have "succeededOf (outcomes a ids w)
      = map fst (filter (\<lambda>(i, s). s = Fulfilled) (outcomes a ids w))"
    by (simp add: succeededOf_def)
  moreover note bulkDelete_Some [of a ids w] bulkDelete_observed [of a ids w]
  ultimately show ?thesis
    using Some succeededOf_sound [of _ "outcomes a ids w"] failedOf_sound [of _ "outcomes a ids w"]
    by (simp add: fst_outcomes)
qed

theorem bulkDelete_rejects_iff_no_api_witness:
  "bulkDelete None [''a'', ''b'', ''c'', ''d''] () = Inl (Error ''API unavailable'')
   \<and> bulkDelete
         (Some (observed (testDouble
              (\<lambda>i. if i = ''b'' then Rejected \<lparr>message = None, rendering = ''timeout''\<rparr>
                   else if i = ''c'' then Rejected \<lparr>message = Some ''gone'', rendering = ''Error: gone''\<rparr>
                   else Fulfilled)
              (\<lambda>i. 0))))
         [''a'', ''b'', ''c'', ''d''] ((), [])
       = Inr \<lparr>succeeded = [''a'', ''d''],
              failed = [\<lparr>failure_id = ''b'', failure_error = ''timeout''\<rparr>,
                        \<lparr>failure_id = ''c'', failure_error = ''gone''\<rparr>],
              trace = [Call ''a'', Call ''b'', Call ''c'', Call ''d'',
                       AllSettled [''a'', ''b'', ''c'', ''d'']],
              world = ((), [(''a'', Fulfilled),
                            (''b'', Rejected \<lparr>message = None, rendering = ''timeout''\<rparr>),
                            (''c'', Rejected \<lparr>message = Some ''gone'', rendering = ''Error: gone''\<rparr>),
                            (''d'', Fulfilled)])\<rparr>"
proof -
  have none: "bulkDelete None [''a'', ''b'', ''c'', ''d''] () = Inl (Error ''API unavailable'')"
    by (simp add: bulkDelete_def)
  have run: "bulkDelete
         (Some (observed (testDouble
              (\<lambda>i. if i = ''b'' then Rejected \<lparr>message = None, rendering = ''timeout''\<rparr>
                   else if i = ''c'' then Rejected \<lparr>message = Some ''gone'', rendering = ''Error: gone''\<rparr>
                   else Fulfilled)
              (\<lambda>i. 0))))
         [''a'', ''b'', ''c'', ''d''] ((), [])
       = Inr \<lparr>succeeded = [''a'', ''d''],
              failed = [\<lparr>failure_id = ''b'', failure_error = ''timeout''\<rparr>,
                        \<lparr>failure_id = ''c'', failure_error = ''gone''\<rparr>],
              trace = [Call ''a'', Call ''b'', Call ''c'', Call ''d'',
                       AllSettled [''a'', ''b'', ''c'', ''d'']],
              world = ((), [(''a'', Fulfilled),
                            (''b'', Rejected \<lparr>message = None, rendering = ''timeout''\<rparr>),
                            (''c'', Rejected \<lparr>message = Some ''gone'', rendering = ''Error: gone''\<rparr>),
                            (''d'', Fulfilled)])\<rparr>"
    by (simp add: bulkDelete_def bulkDeleteLoop.simps processBatch_def slice_def limit_def
          allSettled_def testDouble_def observed_def errorText_def Let_def)
  from bulkDelete_rejects_iff_no_api
    [where api = "Some (testDouble
              (\<lambda>i. if i = ''b'' then Rejected \<lparr>message = None, rendering = ''timeout''\<rparr>
                   else if i = ''c'' then Rejected \<lparr>message = Some ''gone'', rendering = ''Error: gone''\<rparr>
                   else Fulfilled)
              (\<lambda>i. 0))"
       and ids = "[''a'', ''b'', ''c'', ''d'']" and w = "()"]
    none run
  show ?thesis by simp
qed

lemma retime_issueCalls:
  "map settles (fst (issueCalls (retime t api) ids w)) = map settles (fst (issueCalls api ids w))
   \<and> snd (issueCalls (retime t api) ids w) = snd (issueCalls api ids w)"
  by (induction ids arbitrary: w) (simp_all add: retime_def Let_def case_prod_beta)

lemma outcomes_retime: "outcomes (retime t api) ids w = outcomes api ids w"
  by (simp add: outcomes_def allSettled_def retime_issueCalls)

lemma subseq_succeededOf: "subseq (succeededOf os) (map fst os)"
  by (simp add: succeededOf_def subseq_map)

lemma subseq_failedOf: "subseq (map failure_id (failedOf os)) (map fst os)"
  by (simp add: failure_ids_failedOf subseq_map)

text \<open>
  C6, amended: the entries of \<open>succeeded\<close> and of \<open>failed\<close> are in the input order of
  the ids (the ids whose call fulfilled, respectively rejected, as subsequences of the
  input), and the completion times of the calls have no influence on the result.
\<close>

theorem bulkDelete_keeps_input_order:
  "\<exists>run run'. bulkDelete (Some api) ids w = Inr run
     \<and> bulkDelete (Some (retime t api)) ids w = Inr run'
     \<and> succeeded run = map fst (filter (\<lambda>(i, s). s = Fulfilled) (outcomes api ids w))
     \<and> map failure_id (failed run) = map fst (filter (\<lambda>(i, s). s \<noteq> Fulfilled) (outcomes api ids w))
     \<and> subseq (succeeded run) ids
     \<and> subseq (map failure_id (failed run)) ids
     \<and> succeeded run' = succeeded run
     \<and> failed run' = failed run"
  using subseq_succeededOf [of "outcomes api ids w"] subseq_failedOf [of "outcomes api ids w"]
  by (simp add: bulkDelete_Some outcomes_retime fst_outcomes failure_ids_failedOf)
     (simp add: succeededOf_def)

theorem bulkDelete_keeps_input_order_witness:
  "\<exists>run run'.
     bulkDelete (Some (testDouble (rejecting [''b'']) (\<lambda>i. 0))) [''a'', ''b'', ''c''] () = Inr run
     \<and> bulkDelete (Some (retime (\<lambda>i w. if i = ''a'' then 9 else 1)
                           (testDouble (rejecting [''b'']) (\<lambda>i. 0)))) [''a'', ''b'', ''c''] ()
         = Inr run'
     \<and> succeeded run = [''a'', ''c''] \<and> map failure_id (failed run) = [''b'']
     \<and> succeeded run' = [''a'', ''c''] \<and> map failure_id (failed run') = [''b'']"
  using bulkDelete_keeps_input_order
    [where api = "testDouble (rejecting [''b'']) (\<lambda>i. 0)" and ids = "[''a'', ''b'', ''c'']"
       and w = "()" and t = "\<lambda>i w. if i = ''a'' then 9 else 1"]
  by (auto simp: outcomes_def allSettled_def testDouble_def rejecting_def)

text \<open>
  C6, as stated: the entries of \<open>succeeded\<close> follow the completion order of the calls
  inside each chunk-batch. For two ids \<open>a\<close>, \<open>b\<close> whose calls both fulfil, \<open>b\<close>
  first, the completion order is \<open>b\<close>, \<open>a\<close> and the result holds \<open>a\<close>, \<open>b\<close>:
  \<^verbatim>\<open>Promise.allSettled\<close> gives the results in the order of the batch.
\<close>

theorem completion_order_counterexample:
  "bulkDelete (Some (testDouble (\<lambda>i. Fulfilled) (\<lambda>i. if i = ''a'' then 2 else 1))) [''a'', ''b''] ()
     = Inr \<lparr>succeeded = [''a'', ''b''], failed = [],
            trace = [Call ''a'', Call ''b'', AllSettled [''a'', ''b'']], world = ()\<rparr>
   \<and> succeededInCompletionOrder (testDouble (\<lambda>i. Fulfilled) (\<lambda>i. if i = ''a'' then 2 else 1))
        [''a'', ''b''] () = [''b'', ''a'']"
  by (simp add: bulkDelete_def bulkDeleteLoop.simps processBatch_def slice_def limit_def
        allSettled_def testDouble_def succeededInCompletionOrder_def completionOrder_def
        chunks.simps Let_def)

subsection \<open>Confirming a bulk delete\<close>

lemma failedOf_all: "succeededOf os = [] \<Longrightarrow> map failure_id (failedOf os) = map fst os"
proof (induction os)
  case Nil
  then show ?case by (simp add: failedOf_def)
next
  case (Cons e os)
  obtain i s where e: "e = (i, s)" by (cases e)
  from Cons show ?case by (cases s) (simp_all add: e failedOf_def succeededOf_def)
qed

lemma succeededOf_all: "failedOf os = [] \<Longrightarrow> succeededOf os = map fst os"
proof (induction os)
  case Nil
  then show ?case by (simp add: succeededOf_def)
next
  case (Cons e os)
  obtain i s where e: "e = (i, s)" by (cases e)
  from Cons show ?case by (cases s) (simp_all add: e failedOf_def succeededOf_def)
qed

text \<open>
  C1, as stated: when every id failed, and when the outcome is mixed, selection mode stays
  on. The dispatches of the handler act on the state the reducer has when the mutation has
  settled, and neither branch sets the mode. When selection mode was left while the delete
  was in flight, the all-failed branch leaves the state outside selection mode as it is,
  and the mixed branch ends with the failed id selected and selection mode off.
\<close>

theorem confirm_after_exit_counterexample:
  "handleConfirmBulkDelete (Some (testDouble (rejecting [''a'', ''b'', ''c'']) (\<lambda>i. 0))) ()
      \<lparr>selectionMode = True, selectedIds = [''a'', ''b'', ''c'']\<rparr>
      \<lparr>selectionMode = False, selectedIds = []\<rparr>
    = Inr (\<lparr>selectionMode = False, selectedIds = []\<rparr>,
           ToastAllFailed 3,
           \<lparr>succeeded = [],
            failed = [\<lparr>failure_id = ''a'', failure_error = ''gone''\<rparr>,
                      \<lparr>failure_id = ''b'', failure_error = ''gone''\<rparr>,
                      \<lparr>failure_id = ''c'', failure_error = ''gone''\<rparr>],
            trace = [Call ''a'', Call ''b'', Call ''c'', AllSettled [''a'', ''b'', ''c'']],
            world = ()\<rparr>)
   \<and> handleConfirmBulkDelete (Some (testDouble (rejecting [''c'']) (\<lambda>i. 0))) ()
      \<lparr>selectionMode = True, selectedIds = [''a'', ''b'', ''c'']\<rparr>
      \<lparr>selectionMode = False, selectedIds = []\<rparr>
    = Inr (\<lparr>selectionMode = False, selectedIds = [''c'']\<rparr>,
           ToastPartialFailed 1,
           \<lparr>succeeded = [''a'', ''b''],
            failed = [\<lparr>failure_id = ''c'', failure_error = ''gone''\<rparr>],
            trace = [Call ''a'', Call ''b'', Call ''c'', AllSettled [''a'', ''b'', ''c'']],
            world = ()\<rparr>)"
  by (simp add: handleConfirmBulkDelete_def bulkDelete_def bulkDeleteLoop.simps
        processBatch_def slice_def limit_def allSettled_def testDouble_def rejecting_def
        errorText_def Let_def new_Set_def set_add_def set_has_def)

text \<open>
  C1, amended: when \<^verbatim>\<open>handleConfirmBulkDelete\<close> has settled with a result of the mutation,
  exactly one of three cases applies. Every id failed (\<open>succeeded\<close> empty, \<open>failed\<close>
  not): the selection state is left as it is, so with selection mode on the ids stay
  selected and the mode stays on, and the failed ids are the ids that were submitted.
  Every id succeeded (\<open>failed\<close> empty): the selected set is empty and selection mode is
  off. Mixed, with selection mode on when the result is applied: the selected set is
  exactly the set of the failed ids and selection mode stays on.
\<close>

theorem confirm_applies_post_condition:
  assumes "handleConfirmBulkDelete api w rendered current = Inr (state', toast, run)"
  shows "bulkDelete api (selectedIds rendered) w = Inr run
    \<and> ((succeeded run = [] \<and> failed run \<noteq> []) \<or> failed run = []
         \<or> (succeeded run \<noteq> [] \<and> failed run \<noteq> []))
    \<and> (succeeded run = [] \<and> failed run \<noteq> [] \<longrightarrow>
          state' = current \<and> map failure_id (failed run) = selectedIds rendered
          \<and> (selectionMode current \<longrightarrow> selectionMode state'))
    \<and> (failed run = [] \<longrightarrow>
          selectedIds state' = [] \<and> selectionMode state' = False
          \<and> succeeded run = selectedIds rendered)
    \<and> (succeeded run \<noteq> [] \<and> failed run \<noteq> [] \<and> selectionMode current \<longrightarrow>
          set (selectedIds state') = set (map failure_id (failed run))
          \<and> selectionMode state' = True)"
proof -
  from assms obtain a where api: "api = Some a"
    by (cases api) (simp_all add: handleConfirmBulkDelete_def bulkDelete_def)
  let ?os = "outcomes a (selectedIds rendered) w"
  let ?run = "\<lparr>succeeded = succeededOf ?os, failed = failedOf ?os,
          trace = chunkedTrace (chunks limit (selectedIds rendered)),
          world = snd (issueCalls a (selectedIds rendered) w)\<rparr>"
  have bd: "bulkDelete api (selectedIds rendered) w = Inr ?run"
    by (simp add: api bulkDelete_Some)
  from assms have run: "run = ?run"
    by (simp add: handleConfirmBulkDelete_def bd split: if_splits)
  have fst: "map fst ?os = selectedIds rendered" by (rule fst_outcomes)
  have allf: "succeeded run = [] \<Longrightarrow> map failure_id (failed run) = selectedIds rendered"
    using failedOf_all [of ?os] fst by (simp add: run)
  have alls: "failed run = [] \<Longrightarrow> succeeded run = selectedIds rendered"
    using succeededOf_all [of ?os] fst by (simp add: run)
  from assms have st: "state' =
      (if failed run = [] then selectionReducer current EXIT_SELECTION_MODE
       else if succeeded run = [] then current
       else selectionReducer (selectionReducer current CLEAR_SELECTION)
              (SELECT_ALL (map failure_id (failed run))))"
    by (simp add: handleConfirmBulkDelete_def bd run split: if_splits)
  show ?thesis
    using bd run st allf alls by (auto simp: new_Set_Nil set_new_Set)
qed

theorem confirm_applies_post_condition_witness:
  "handleConfirmBulkDelete (Some (testDouble (rejecting [''c'', ''f'']) (\<lambda>i. 0))) ()
      \<lparr>selectionMode = True, selectedIds = [''a'', ''b'', ''c'', ''d'', ''e'', ''f'']\<rparr>
      \<lparr>selectionMode = True, selectedIds = [''a'', ''b'', ''c'']\<rparr>
    = Inr (\<lparr>selectionMode = True, selectedIds = [''c'', ''f'']\<rparr>,
           ToastPartialFailed 2,
           \<lparr>succeeded = [''a'', ''b'', ''d'', ''e''],
            failed = [\<lparr>failure_id = ''c'', failure_error = ''gone''\<rparr>,
                      \<lparr>failure_id = ''f'', failure_error = ''gone''\<rparr>],
            trace = [Call ''a'', Call ''b'', Call ''c'', Call ''d'', Call ''e'',
                     AllSettled [''a'', ''b'', ''c'', ''d'', ''e''],
                     Call ''f'', AllSettled [''f'']],
            world = ()\<rparr>)
   \<and> selectionMode \<lparr>selectionMode = True, selectedIds = [''a'', ''b'', ''c'']\<rparr>
   \<and> set [''c'', ''f''] = set (map failure_id
         [\<lparr>failure_id = ''c'', failure_error = ''gone''\<rparr>,
          \<lparr>failure_id = ''f'', failure_error = ''gone''\<rparr>])"
proof -
  have run: "handleConfirmBulkDelete (Some (testDouble (rejecting [''c'', ''f'']) (\<lambda>i. 0))) ()
      \<lparr>selectionMode = True, selectedIds = [''a'', ''b'', ''c'', ''d'', ''e'', ''f'']\<rparr>
      \<lparr>selectionMode = True, selectedIds = [''a'', ''b'', ''c'']\<rparr>
    = Inr (\<lparr>selectionMode = True, selectedIds = [''c'', ''f'']\<rparr>,
           ToastPartialFailed 2,
           \<lparr>succeeded = [''a'', ''b'', ''d'', ''e''],
            failed = [\<lparr>failure_id = ''c'', failure_error = ''gone''\<rparr>,
                      \<lparr>failure_id = ''f'', failure_error = ''gone''\<rparr>],
            trace = [Call ''a'', Call ''b'', Call ''c'', Call ''d'', Call ''e'',
                     AllSettled [''a'', ''b'', ''c'', ''d'', ''e''],
                     Call ''f'', AllSettled [''f'']],
            world = ()\<rparr>)"
    by (simp add: handleConfirmBulkDelete_def bulkDelete_def bulkDeleteLoop.simps
          processBatch_def slice_def limit_def allSettled_def testDouble_def rejecting_def
          errorText_def Let_def new_Set_def set_add_def set_has_def)
  from confirm_applies_post_condition [OF run] run show ?thesis by simp
qed

text \<open>
  C9, as stated: a confirmation with an empty selection resolves with both lists empty and
  takes the all-success path. Without an API client the mutation rejects before it looks
  at the ids, also for the empty sequence, and the handler dispatches nothing.
\<close>

theorem empty_selection_without_api_counterexample:
  "selectedIds \<lparr>selectionMode = True, selectedIds = []\<rparr> = []
   \<and> handleConfirmBulkDelete None ()
         \<lparr>selectionMode = True, selectedIds = []\<rparr> \<lparr>selectionMode = True, selectedIds = []\<rparr>
       = Inl (Error ''API unavailable'')"
  by (simp add: handleConfirmBulkDelete_def bulkDelete_def)

text \<open>
  C9, amended: with an API client and an empty selection, the mutation issues no call (its
  log is empty and the remote state is unchanged) and resolves with \<open>succeeded\<close> and
  \<open>failed\<close> empty; the handler then takes the branch of \<^verbatim>\<open>failed.length === 0\<close>: it
  leaves selection mode and shows the success toast with count 0.
\<close>

theorem empty_selection_takes_success_path:
  assumes "selectedIds rendered = []"
  shows "handleConfirmBulkDelete (Some api) w rendered current
     = Inr (\<lparr>selectionMode = False, selectedIds = []\<rparr>, ToastSuccess 0,
            \<lparr>succeeded = [], failed = [], trace = [], world = w\<rparr>)"
  using assms
  by (simp add: handleConfirmBulkDelete_def bulkDelete_def bulkDeleteLoop.simps new_Set_Nil)

theorem empty_selection_takes_success_path_witness:
  "selectedIds \<lparr>selectionMode = True, selectedIds = []\<rparr> = []
   \<and> handleConfirmBulkDelete (Some (testDouble (rejecting []) (\<lambda>i. 0))) ()
         \<lparr>selectionMode = True, selectedIds = []\<rparr> \<lparr>selectionMode = True, selectedIds = []\<rparr>
       = Inr (\<lparr>selectionMode = False, selectedIds = []\<rparr>, ToastSuccess 0,
              \<lparr>succeeded = [], failed = [], trace = [], world = ()\<rparr>)"
  using empty_selection_takes_success_path
    [where rendered = "\<lparr>selectionMode = True, selectedIds = []\<rparr>"
       and current = "\<lparr>selectionMode = True, selectedIds = []\<rparr>"
       and api = "testDouble (rejecting []) (\<lambda>i. 0)" and w = "()"]
  by simp

subsection \<open>Grouping\<close>

lemma mset_insertBy: "mset (insertBy cmp x xs) = add_mset x (mset xs)"
  by (induction xs) auto

lemma mset_sortBy: "mset (sortBy cmp xs) = mset xs"
  by (induction xs) (auto simp: mset_insertBy)

lemma set_insertBy: "set (insertBy cmp x xs) = insert x (set xs)"
  using mset_insertBy [of cmp x xs] by (metis set_mset_add_mset_insert set_mset_mset)

lemma set_sortBy: "set (sortBy cmp xs) = set xs"
  using mset_sortBy [of cmp xs] by (metis set_mset_mset)

lemma sorted_insertBy:
  assumes total: "\<And>a b. cmp a b \<le> 0 \<or> cmp b a \<le> 0"
    and trans: "\<And>a b c. cmp a b \<le> 0 \<Longrightarrow> cmp b c \<le> 0 \<Longrightarrow> cmp a c \<le> 0"
  shows "sorted_wrt (\<lambda>a b. cmp a b \<le> 0) xs \<Longrightarrow> sorted_wrt (\<lambda>a b. cmp a b \<le> 0) (insertBy cmp x xs)"
proof (induction xs)
  case Nil
  then show ?case by simp
next
  case (Cons y ys)
  show ?case
  proof (cases "cmp x y \<le> 0")
    case True
    with Cons.prems trans show ?thesis by auto
  next
    case False
    with total have "cmp y x \<le> 0" by blast
    with False Cons show ?thesis by (auto simp: set_insertBy)
  qed
qed

lemma sorted_sortBy:
  assumes total: "\<And>a b. cmp a b \<le> 0 \<or> cmp b a \<le> 0"
    and trans: "\<And>a b c. cmp a b \<le> 0 \<Longrightarrow> cmp b c \<le> 0 \<Longrightarrow> cmp a c \<le> 0"
  shows "sorted_wrt (\<lambda>a b. cmp a b \<le> 0) (sortBy cmp xs)"
proof (induction xs)
  case Nil
  then show ?case by simp
next
  case (Cons x xs)
  then show ?case using sorted_insertBy [of cmp, OF total trans] by simp
qed

text \<open>
  Where the comparator is that of a key, \<open>sortBy\<close> is the stable sort by that key of the
  library; this is so for the comparator of the sessions, with the key (tier, negated
  \<open>updatedAt\<close>) in lexicographic order.
\<close>

lemma insertBy_insort_key:
  assumes "\<And>x y. cmp x y \<le> 0 \<longleftrightarrow> f x \<le> f y"
  shows "insertBy cmp x xs = insort_key f x xs"
  by (induction xs) (simp_all add: assms)

lemma sortBy_sort_key:
  assumes "\<And>x y. cmp x y \<le> 0 \<longleftrightarrow> f x \<le> f y"
  shows "sortBy cmp xs = sort_key f xs"
  by (induction xs) (simp_all add: insertBy_insort_key [of cmp f, OF assms])

lemma sortBy_compareSessions:
  "sortBy compareSessions xs = sort_key (\<lambda>s. (tier s, - updatedAt s)) xs"
  by (rule sortBy_sort_key) (auto simp: compareSessions_def tier_def Let_def less_eq_prod_def)

lemma compareSessions_le: "compareSessions a b \<le> 0 \<longleftrightarrow> sessionBefore a b"
  by (auto simp: compareSessions_def sessionBefore_def tier_def Let_def)

lemma groupPath_groupKey: "groupPath s = groupKey s"
  by (simp add: groupPath_def groupKey_def worktreeBasePath_def sessionPath_def
        split: option.splits)

lemma groupPath_is_groupKey: "groupPath = groupKey"
  by (rule ext) (rule groupPath_groupKey)

lemma sorted_sessions: "sorted_wrt sessionBefore (sortBy compareSessions vs)"
proof -
  have "sorted_wrt (\<lambda>a b. compareSessions a b \<le> 0) (sortBy compareSessions vs)"
  proof (rule sorted_sortBy)
    show "compareSessions a b \<le> 0 \<or> compareSessions b a \<le> 0" for a b
      by (auto simp: compareSessions_le sessionBefore_def)
    show "compareSessions a b \<le> 0 \<Longrightarrow> compareSessions b c \<le> 0 \<Longrightarrow> compareSessions a c \<le> 0"
      for a b c
      by (auto simp: compareSessions_le sessionBefore_def)
  qed
  then show ?thesis by (simp add: compareSessions_le [abs_def])
qed

lemma numMinus_total: "numMinus x y \<le> 0 \<or> numMinus y x \<le> 0"
  by (cases x; cases y) auto

lemma numMinus_trans: "numMinus y x \<le> 0 \<Longrightarrow> numMinus z y \<le> 0 \<Longrightarrow> numMinus z x \<le> 0"
  by (cases x; cases y; cases z) auto

lemma sorted_groups_cmp: "sorted_wrt (\<lambda>a b. compareGroups a b \<le> 0) (sortBy compareGroups gs)"
proof (rule sorted_sortBy)
  show "compareGroups a b \<le> 0 \<or> compareGroups b a \<le> 0" for a b
    using numMinus_total [of "latestUpdatedAt b" "latestUpdatedAt a"]
    by (auto simp: compareGroups_def)
  show "compareGroups a b \<le> 0 \<Longrightarrow> compareGroups b c \<le> 0 \<Longrightarrow> compareGroups a c \<le> 0" for a b c
    using numMinus_trans [of "latestUpdatedAt b" "latestUpdatedAt a" "latestUpdatedAt c"]
    by (auto simp: compareGroups_def split: if_splits)
qed

lemma Max_insert_max:
  "finite S \<Longrightarrow> Max (insert (max x u) S) = Max (insert (x::int) (insert u S))"
  by (cases "S = {}") (simp_all add: max.assoc)

lemma foldl_latest:
  "foldl (\<lambda>m s. if numGreater (Num (updatedAt s)) m then Num (updatedAt s) else m) (Num x) vs
     = Num (Max (insert x (set (map updatedAt vs))))"
proof (induction vs arbitrary: x)
  case Nil
  then show ?case by simp
next
  case (Cons v vs)
  have step: "(if numGreater (Num (updatedAt v)) (Num x) then Num (updatedAt v) else Num x)
                = Num (max x (updatedAt v))"
    by (simp add: max_def)
  have "Max (insert (max x (updatedAt v)) (set (map updatedAt vs)))
          = Max (insert x (insert (updatedAt v) (set (map updatedAt vs))))"
    by (rule Max_insert_max) simp
  then show ?case
    unfolding foldl_Cons step Cons.IH by simp
qed

lemma fst_map_push: "map fst (map_push m k s) = map fst m"
  by (induction m) (auto simp: map_push_def)

lemma in_map_push:
  "(k', vs') \<in> set (map_push m k s)
     \<longleftrightarrow> (\<exists>vs. (k', vs) \<in> set m \<and> vs' = (if k' = k then vs @ [s] else vs))"
proof (induction m)
  case Nil
  then show ?case by (simp add: map_push_def)
next
  case (Cons e m)
  obtain a b where e: "e = (a, b)" by (cases e)
  have step: "map_push (e # m) k s = (a, if a = k then b @ [s] else b) # map_push m k s"
    by (simp add: map_push_def e)
  show ?case unfolding step using Cons.IH by (auto simp: e)
qed

lemma mset_map_push:
  "distinct (map fst m) \<Longrightarrow> k \<in> set (map fst m) \<Longrightarrow>
     mset (concat (map snd (map_push m k s))) = add_mset s (mset (concat (map snd m)))"
proof (induction m)
  case Nil
  then show ?case by simp
next
  case (Cons e m)
  obtain k' vs where e: "e = (k', vs)" by (cases e)
  show ?case
  proof (cases "k' = k")
    case True
    with Cons.prems e have "k \<notin> set (map fst m)" by simp
    then have "map_push m k s = m"
      by (induction m) (auto simp: map_push_def)
    with True e show ?thesis by (simp add: map_push_def)
  next
    case False
    with Cons e have "mset (concat (map snd (map_push m k s))) = add_mset s (mset (concat (map snd m)))"
      by simp
    with False e show ?thesis by (simp add: map_push_def)
  qed
qed

lemma grouped_addSession:
  assumes "grouped m seen"
  shows "grouped (addSession m s) (seen @ [s])"
proof -
  let ?p = "groupPath s"
  let ?m1 = "if \<not> map_has m ?p then map_set m ?p [] else m"
  from assms have dist: "distinct (map fst m)"
    and keys: "set (map fst m) = set (map groupPath seen)"
    and vals: "\<And>k vs. (k, vs) \<in> set m \<Longrightarrow> vs = filter (\<lambda>s. groupPath s = k) seen"
    and ms: "mset (concat (map snd m)) = mset seen"
    by (auto simp: grouped_def)
  have add: "addSession m s = map_push ?m1 ?p s"
    by (simp add: addSession_def Let_def)
  have m1: "?m1 = (if ?p \<in> set (map fst m) then m else m @ [(?p, [])])"
    by (simp add: map_has_def map_set_def)
  have dist1: "distinct (map fst ?m1)" using dist by (simp add: m1)
  have in1: "?p \<in> set (map fst ?m1)" by (simp add: m1)
  have keys1: "set (map fst ?m1) = insert ?p (set (map fst m))" by (auto simp: m1)
  have ms1: "mset (concat (map snd ?m1)) = mset (concat (map snd m))" by (simp add: m1)
  have vals1: "vs = filter (\<lambda>s. groupPath s = k) seen" if "(k, vs) \<in> set ?m1" for k vs
  proof (cases "(k, vs) \<in> set m")
    case True
    then show ?thesis by (rule vals)
  next
    case False
    with that have new: "?p \<notin> set (map fst m)" "k = ?p" "vs = []"
      by (auto simp: m1 split: if_splits)
    have "groupPath x \<noteq> ?p" if "x \<in> set seen" for x
    proof
      assume "groupPath x = ?p"
      with that have "?p \<in> groupPath ` set seen" by (metis imageI)
      with keys new(1) show False by simp
    qed
    then have "filter (\<lambda>s. groupPath s = k) seen = []"
      unfolding new(2) filter_empty_conv by blast
    with new show ?thesis by simp
  qed
  have "distinct (map fst (addSession m s))"
    using dist1 by (simp add: add fst_map_push)
  moreover have "set (map fst (addSession m s)) = set (map groupPath (seen @ [s]))"
    using keys1 keys by (simp add: add fst_map_push)
  moreover have "\<forall>(k, vs) \<in> set (addSession m s). vs = filter (\<lambda>s. groupPath s = k) (seen @ [s])"
  proof -
    have "vs' = filter (\<lambda>s. groupPath s = k) (seen @ [s])"
      if "(k, vs') \<in> set (map_push ?m1 ?p s)" for k vs'
    proof -
      from that obtain vs where in1: "(k, vs) \<in> set ?m1"
        and vs': "vs' = (if k = ?p then vs @ [s] else vs)"
        unfolding in_map_push by blast
      from in1 have "vs = filter (\<lambda>s. groupPath s = k) seen" by (rule vals1)
      with vs' show ?thesis by auto
    qed
    then show ?thesis unfolding add by blast
  qed
  moreover have "mset (concat (map snd (addSession m s))) = mset (seen @ [s])"
    using mset_map_push [OF dist1 in1, of s] ms1 ms by (simp add: add)
  ultimately show ?thesis by (simp add: grouped_def)
qed

lemma grouped_foldl:
  "grouped m seen \<Longrightarrow> grouped (foldl addSession m ss) (seen @ ss)"
proof (induction ss arbitrary: m seen)
  case Nil
  then show ?case by simp
next
  case (Cons s ss)
  from Cons.prems have "grouped (addSession m s) (seen @ [s])" by (rule grouped_addSession)
  then have "grouped (foldl addSession (addSession m s) ss) ((seen @ [s]) @ ss)" by (rule Cons.IH)
  then show ?case by simp
qed

lemma grouped_all: "grouped (foldl addSession [] ss) ss"
  using grouped_foldl [of "[]" "[]" ss] by (simp add: grouped_def)

lemma latest_of_group:
  assumes "vs \<noteq> []"
  shows "foldl (\<lambda>m s. if numGreater (Num (updatedAt s)) m then Num (updatedAt s) else m)
           MinusInfinity vs = Num (latestOf vs)"
proof -
  from assms obtain v vs' where vs: "vs = v # vs'" by (cases vs) auto
  show ?thesis
    unfolding vs by (simp add: foldl_latest latestOf_def)
qed

lemma makeGroup_fields:
  "directory (makeGroup (k, vs)) = k"
  "sessions (makeGroup (k, vs)) = sortBy compareSessions vs"
  "hasActiveSession (makeGroup (k, vs)) = (\<exists>s \<in> set vs. active s)"
  "vs \<noteq> [] \<Longrightarrow> latestUpdatedAt (makeGroup (k, vs)) = Num (latestOf vs)"
  by (simp_all add: makeGroup_def list_ex_iff latest_of_group)

lemma latestOf_sortBy: "latestOf (sortBy cmp vs) = latestOf vs"
  by (simp add: latestOf_def set_sortBy)

lemma compareGroups_before:
  assumes "latestUpdatedAt g = Num (latestOf (sessions g))"
    and "latestUpdatedAt h = Num (latestOf (sessions h))"
    and "hasActiveSession g = containsActive g"
    and "hasActiveSession h = containsActive h"
    and "compareGroups g h \<le> 0"
  shows "groupBefore g h"
  using assms by (auto simp: compareGroups_def groupBefore_def split: if_splits)

lemma group_of_entry:
  assumes "grouped m ss" and "g \<in> set (sortBy compareGroups (map makeGroup m))"
  shows "\<exists>k vs. g = makeGroup (k, vs) \<and> vs = filter (\<lambda>s. groupPath s = k) ss \<and> vs \<noteq> []"
proof -
  from assms(2) obtain k vs where in_m: "(k, vs) \<in> set m" and g: "g = makeGroup (k, vs)"
    by (auto simp: set_sortBy)
  from assms(1) in_m have vs: "vs = filter (\<lambda>s. groupPath s = k) ss"
    by (auto simp: grouped_def)
  from in_m have "k \<in> set (map fst m)" by force
  with assms(1) have "k \<in> set (map groupPath ss)" by (simp add: grouped_def)
  then obtain s where "s \<in> set ss" "groupPath s = k" by auto
  then have "s \<in> set vs" by (simp add: vs)
  then have "vs \<noteq> []" by auto
  with g vs show ?thesis by blast
qed

lemma mset_map_sortBy: "mset (map f (sortBy cmp xs)) = mset (map f xs)"
  by (simp only: mset_map mset_sortBy)

lemma sum_list_map_sortBy:
  "sum_list (map f (sortBy cmp xs)) = sum_list (map (f :: 'a \<Rightarrow> 'b multiset) xs)"
  using mset_map_sortBy [of f cmp xs] by (metis sum_mset_sum_list)

lemma sessions_makeGroup: "mset (sessions (makeGroup e)) = mset (snd e)"
  by (cases e) (simp add: makeGroup_def mset_sortBy)

lemma directory_makeGroup: "directory (makeGroup e) = fst e"
  by (cases e) (simp add: makeGroup_def)

lemma mset_concat_sessions:
  "mset (concat (map sessions (sortBy compareGroups (map makeGroup m)))) = mset (concat (map snd m))"
proof -
  have "mset (concat (map sessions (sortBy compareGroups (map makeGroup m))))
          = sum_list (map (\<lambda>g. mset (sessions g)) (sortBy compareGroups (map makeGroup m)))"
    by (simp add: mset_concat comp_def)
  also have "\<dots> = sum_list (map (\<lambda>g. mset (sessions g)) (map makeGroup m))"
    by (rule sum_list_map_sortBy)
  also have "\<dots> = sum_list (map (\<lambda>e. mset (snd e)) m)"
    by (simp add: comp_def sessions_makeGroup)
  also have "\<dots> = mset (concat (map snd m))"
    by (simp add: mset_concat comp_def)
  finally show ?thesis .
qed

lemma directories_of_groups:
  "mset (map directory (sortBy compareGroups (map makeGroup m))) = mset (map fst m)"
proof -
  have "mset (map directory (sortBy compareGroups (map makeGroup m)))
          = mset (map directory (map makeGroup m))"
    by (rule mset_map_sortBy)
  also have "\<dots> = mset (map fst m)"
    by (simp add: comp_def directory_makeGroup)
  finally show ?thesis .
qed

text \<open>
  C2: the groups of \<^verbatim>\<open>groupSessionsByDirectory\<close> partition the input: their sessions
  together are the sessions of the input, the directories of the groups are pairwise
  different and are the keys of the sessions of the input (worktree base path, else path,
  else \<^verbatim>\<open>Other\<close>), and each group holds exactly the sessions of the input with its key. The
  sessions of a group are sorted by tier (0 active with pending requests, 1 active with
  none, 2 inactive) and, within a tier, by descending \<open>updatedAt\<close>. \<open>hasActiveSession\<close>
  says whether the group contains an active session, \<open>latestUpdatedAt\<close> is the latest
  \<open>updatedAt\<close> of its sessions, and the groups are sorted with the groups that contain
  an active session first and, among groups that agree on that, by descending
  \<open>latestUpdatedAt\<close>.
\<close>

theorem groups_partition_and_order:
  "mset (concat (map sessions (groupSessionsByDirectory ss))) = mset ss
   \<and> distinct (map directory (groupSessionsByDirectory ss))
   \<and> set (map directory (groupSessionsByDirectory ss)) = set (map groupKey ss)
   \<and> (\<forall>g \<in> set (groupSessionsByDirectory ss).
         mset (sessions g) = mset (filter (\<lambda>s. groupKey s = directory g) ss)
       \<and> sessions g \<noteq> []
       \<and> sorted_wrt sessionBefore (sessions g)
       \<and> hasActiveSession g = (\<exists>s \<in> set (sessions g). active s)
       \<and> latestUpdatedAt g = Num (latestOf (sessions g)))
   \<and> sorted_wrt groupBefore (groupSessionsByDirectory ss)"
proof -
  let ?m = "foldl addSession [] ss"
  let ?G = "groupSessionsByDirectory ss"
  have G: "?G = sortBy compareGroups (map makeGroup ?m)"
    by (simp add: groupSessionsByDirectory_def)
  have gr: "grouped ?m ss" by (rule grouped_all)
  have part: "mset (concat (map sessions ?G)) = mset ss"
    using gr by (simp add: G mset_concat_sessions grouped_def)
  have dirs: "mset (map directory ?G) = mset (map fst ?m)"
    unfolding G by (rule directories_of_groups)
  have dist: "distinct (map directory ?G)"
    using gr mset_eq_imp_distinct_iff [OF dirs] by (simp add: grouped_def)
  have "set (map directory ?G) = set (map groupPath ss)"
    using gr mset_eq_setD [OF dirs] by (simp add: grouped_def)
  then have keys: "set (map directory ?G) = set (map groupKey ss)"
    by (simp only: groupPath_is_groupKey)
  have each: "mset (sessions g) = mset (filter (\<lambda>s. groupKey s = directory g) ss)
       \<and> sessions g \<noteq> []
       \<and> sorted_wrt sessionBefore (sessions g)
       \<and> hasActiveSession g = (\<exists>s \<in> set (sessions g). active s)
       \<and> latestUpdatedAt g = Num (latestOf (sessions g))" if "g \<in> set ?G" for g
  proof -
    from gr that obtain k vs where g: "g = makeGroup (k, vs)"
      and vs: "vs = filter (\<lambda>s. groupPath s = k) ss" and ne: "vs \<noteq> []"
      unfolding G using group_of_entry by blast
    have vs': "vs = filter (\<lambda>s. groupKey s = k) ss"
      using vs by (simp only: groupPath_is_groupKey)
    have "sessions g \<noteq> []"
      using ne mset_sortBy [of compareSessions vs] by (auto simp: g makeGroup_fields)
    moreover have "latestUpdatedAt g = Num (latestOf (sessions g))"
      using ne by (simp add: g makeGroup_fields latestOf_sortBy)
    ultimately show ?thesis
      by (simp add: g makeGroup_fields mset_sortBy set_sortBy sorted_sessions flip: vs')
  qed
  have "sorted_wrt (\<lambda>a b. compareGroups a b \<le> 0) ?G"
    unfolding G by (rule sorted_groups_cmp)
  then have ord: "sorted_wrt groupBefore ?G"
  proof (rule sorted_wrt_mono_rel [rotated])
    fix g h
    assume "g \<in> set ?G" "h \<in> set ?G" "compareGroups g h \<le> 0"
    then show "groupBefore g h"
      using each [of g] each [of h] by (simp add: compareGroups_before containsActive_def)
  qed
  from part dist keys each ord show ?thesis by blast
qed

theorem groups_partition_and_order_witness:
  "map (\<lambda>g. (directory g, map session_id (sessions g), hasActiveSession g, latestUpdatedAt g))
     (groupSessionsByDirectory
       [\<lparr>session_id = ''F'', active = False, updatedAt = 50, pendingRequestsCount = 0,
         metadata = Some \<lparr>path = Some ''/z'', worktree = None\<rparr>\<rparr>,
        \<lparr>session_id = ''E'', active = False, updatedAt = 100, pendingRequestsCount = 0,
         metadata = Some \<lparr>path = Some ''/home/u/proj'', worktree = None\<rparr>\<rparr>,
        \<lparr>session_id = ''D'', active = False, updatedAt = 999, pendingRequestsCount = 3,
         metadata = None\<rparr>,
        \<lparr>session_id = ''A'', active = True, updatedAt = 300, pendingRequestsCount = 2,
         metadata = Some \<lparr>path = Some ''/home/u/proj'', worktree = None\<rparr>\<rparr>,
        \<lparr>session_id = ''C'', active = False, updatedAt = 950, pendingRequestsCount = 0,
         metadata = Some \<lparr>path = Some ''/home/u/proj'', worktree = None\<rparr>\<rparr>,
        \<lparr>session_id = ''B'', active = True, updatedAt = 900, pendingRequestsCount = 0,
         metadata = Some \<lparr>path = Some ''/tmp/wt'',
                           worktree = Some \<lparr>basePath = Some ''/home/u/proj''\<rparr>\<rparr>\<rparr>,
        \<lparr>session_id = ''G'', active = True, updatedAt = 400, pendingRequestsCount = 1,
         metadata = Some \<lparr>path = Some ''/home/u/proj'', worktree = Some \<lparr>basePath = None\<rparr>\<rparr>\<rparr>])
   = [(''/home/u/proj'', [''G'', ''A'', ''B'', ''C'', ''E''], True, Num 950),
      (''Other'', [''D''], False, Num 999),
      (''/z'', [''F''], False, Num 50)]"
  using groups_partition_and_order
    [of "[\<lparr>session_id = ''F'', active = False, updatedAt = 50, pendingRequestsCount = 0,
         metadata = Some \<lparr>path = Some ''/z'', worktree = None\<rparr>\<rparr>,
        \<lparr>session_id = ''E'', active = False, updatedAt = 100, pendingRequestsCount = 0,
         metadata = Some \<lparr>path = Some ''/home/u/proj'', worktree = None\<rparr>\<rparr>,
        \<lparr>session_id = ''D'', active = False, updatedAt = 999, pendingRequestsCount = 3,
         metadata = None\<rparr>,
        \<lparr>session_id = ''A'', active = True, updatedAt = 300, pendingRequestsCount = 2,
         metadata = Some \<lparr>path = Some ''/home/u/proj'', worktree = None\<rparr>\<rparr>,
        \<lparr>session_id = ''C'', active = False, updatedAt = 950, pendingRequestsCount = 0,
         metadata = Some \<lparr>path = Some ''/home/u/proj'', worktree = None\<rparr>\<rparr>,
        \<lparr>session_id = ''B'', active = True, updatedAt = 900, pendingRequestsCount = 0,
         metadata = Some \<lparr>path = Some ''/tmp/wt'',
                           worktree = Some \<lparr>basePath = Some ''/home/u/proj''\<rparr>\<rparr>\<rparr>,
        \<lparr>session_id = ''G'', active = True, updatedAt = 400, pendingRequestsCount = 1,
         metadata = Some \<lparr>path = Some ''/home/u/proj'', worktree = Some \<lparr>basePath = None\<rparr>\<rparr>\<rparr>]"]
  by (simp add: groupSessionsByDirectory_def addSession_def map_has_def map_set_def map_push_def
        groupPath_def makeGroup_def compareGroups_def compareSessions_def Let_def)

text \<open>The display names of the specification's examples.\<close>

lemma displayName_examples:
  "getGroupDisplayName ''/home/u/proj/worktrees/feature-x'' = ''worktrees/feature-x''"
  "getGroupDisplayName ''Other'' = ''Other''"
  "getGroupDisplayName ''solo'' = ''solo''"
  by (simp_all add: getGroupDisplayName_def isSeparator_def Let_def)

subsection \<open>The permission-mode mutation\<close>

text \<open>
  C10, as stated: the mutation rejects with \<^verbatim>\<open>Invalid permission mode for session flavor\<close>
  if and only if the flavor is known and the policy disallows the mode, and for an absent
  flavor the mode is sent to the API. Without an API client the mutation rejects with
  \<^verbatim>\<open>Session unavailable\<close> in both cases: for a known flavor with a disallowed mode the
  message is another one, and for an absent flavor nothing is sent.
\<close>

theorem permission_mode_without_api_counterexample:
  "isKnownFlavor \<lparr>isKnownFlavor = (\<lambda>f. f = Some ''codex''),
         isPermissionModeAllowedForFlavor = (\<lambda>m f. m \<noteq> ''plan'')\<rparr> (Some ''codex'')
   \<and> \<not> isPermissionModeAllowedForFlavor \<lparr>isKnownFlavor = (\<lambda>f. f = Some ''codex''),
         isPermissionModeAllowedForFlavor = (\<lambda>m f. m \<noteq> ''plan'')\<rparr> ''plan'' (Some ''codex'')
   \<and> permissionMutationFn
        \<lparr>isKnownFlavor = (\<lambda>f. f = Some ''codex''),
         isPermissionModeAllowedForFlavor = (\<lambda>m f. m \<noteq> ''plan'')\<rparr>
        None (Some ''s1'') (Some ''codex'') ''plan'' ()
      = (Inl (Error ''Session unavailable''), [], ())
   \<and> \<not> isKnownFlavor \<lparr>isKnownFlavor = (\<lambda>f. f = Some ''codex''),
         isPermissionModeAllowedForFlavor = (\<lambda>m f. m \<noteq> ''plan'')\<rparr> None
   \<and> permissionMutationFn
        \<lparr>isKnownFlavor = (\<lambda>f. f = Some ''codex''),
         isPermissionModeAllowedForFlavor = (\<lambda>m f. m \<noteq> ''plan'')\<rparr>
        None (Some ''s1'') None ''plan'' ()
      = (Inl (Error ''Session unavailable''), [], ())"
  by (simp add: permissionMutationFn_def)

text \<open>
  C10, amended: without an API client or without a non-empty session id the mutation
  rejects with \<^verbatim>\<open>Session unavailable\<close> and calls nothing. With both at hand it rejects
  with \<^verbatim>\<open>Invalid permission mode for session flavor\<close>, without a call to the API, if and
  only if the flavor is a known one and the policy does not allow the mode for it; for a
  flavor that is absent or not known the mode is sent to the API whatever it is.
\<close>

theorem permission_mode_checked_when_available:
  "(api = None \<or> sessionId = None \<or> sessionId = Some [] \<longrightarrow>
      permissionMutationFn policy api sessionId agentFlavor mode w
        = (Inl (Error ''Session unavailable''), [], w))
   \<and> (\<forall>a sid. api = Some a \<and> sessionId = Some sid \<and> sid \<noteq> [] \<longrightarrow>
        ((permissionMutationFn policy api sessionId agentFlavor mode w
            = (Inl (Error ''Invalid permission mode for session flavor''), [], w))
         \<longleftrightarrow> (isKnownFlavor policy agentFlavor
                \<and> \<not> isPermissionModeAllowedForFlavor policy mode agentFlavor))
        \<and> (\<not> isKnownFlavor policy agentFlavor \<longrightarrow>
              fst (snd (permissionMutationFn policy api sessionId agentFlavor mode w))
                = [SetPermissionMode sid mode]))"
  by (auto simp: permissionMutationFn_def split: prod.splits Settled.splits option.splits)

theorem permission_mode_checked_when_available_witness:
  "permissionMutationFn
        \<lparr>isKnownFlavor = (\<lambda>f. f = Some ''codex''),
         isPermissionModeAllowedForFlavor = (\<lambda>m f. m \<noteq> ''plan'')\<rparr>
        (Some (\<lambda>sid mode w. (Fulfilled, w))) (Some ''s1'') (Some ''codex'') ''plan'' ()
      = (Inl (Error ''Invalid permission mode for session flavor''), [], ())
   \<and> fst (snd (permissionMutationFn
        \<lparr>isKnownFlavor = (\<lambda>f. f = Some ''codex''),
         isPermissionModeAllowedForFlavor = (\<lambda>m f. m \<noteq> ''plan'')\<rparr>
        (Some (\<lambda>sid mode w. (Fulfilled, w))) (Some ''s1'') None ''plan'' ()))
      = [SetPermissionMode ''s1'' ''plan'']"
  using permission_mode_checked_when_available
      [where api = "Some (\<lambda>sid mode w. (Fulfilled, w))" and sessionId = "Some ''s1''" and w = "()"
         and agentFlavor = "Some ''codex''" and mode = "''plan''"
         and policy = "\<lparr>isKnownFlavor = (\<lambda>f. f = Some ''codex''),
           isPermissionModeAllowedForFlavor = (\<lambda>m f. m \<noteq> ''plan'')\<rparr>"]
    permission_mode_checked_when_available
      [where api = "Some (\<lambda>sid mode w. (Fulfilled, w))" and sessionId = "Some ''s1''" and w = "()"
         and agentFlavor = "None" and mode = "''plan''"
         and policy = "\<lparr>isKnownFlavor = (\<lambda>f. f = Some ''codex''),
           isPermissionModeAllowedForFlavor = (\<lambda>m f. m \<noteq> ''plan'')\<rparr>"]
  by simp

end
